theory Spec2Isabelle
  imports Main "HOL-Library.Word"
begin

section \<open>Cleartext HTTP/2 detection (h2c.go, ServeHTTP)\<close>

text \<open>
  The fields of \<^verbatim>\<open>http.Request\<close> that \<^verbatim>\<open>(*h2cHandler).ServeHTTP\<close> reads. The header
  is Go's \<^verbatim>\<open>map[string][]string\<close>, kept as an association list with one entry per key,
  so that \<^verbatim>\<open>len(r.Header)\<close> is its length.
\<close>

record request =
  Method :: string
  Header :: "(string \<times> string list) list"
  URL_Path :: string
  Proto :: string

datatype dispatch =
    H2CPriorKnowledge request
  | Fallback request

definition ServeHTTP :: "request \<Rightarrow> dispatch" where
  "ServeHTTP r =
     (if Method r = ''PRI'' \<and> length (Header r) = 0 \<and> URL_Path r = ''*'' \<and> Proto r = ''HTTP/2.0''
      then H2CPriorKnowledge r
      else Fallback r)"

section \<open>Errors and their aggregation (h1h2.go, h3.go)\<close>

text \<open>
  Go error values as far as the runners inspect them: the two server-closed sentinels, any
  other error, an error wrapping another one (\<^verbatim>\<open>fmt.Errorf("...: %w", err)\<close>) and the
  aggregate built by the multierr package. A nil error is \<open>None\<close>.
\<close>

datatype error =
    ErrServerClosed
  | QuicErrServerClosed
  | ErrOther string
  | Wrapped string error
  | MultiError "error list"

text \<open>
  \<^verbatim>\<open>errors.Is(err, target)\<close>: the error itself or anything reachable by unwrapping it equals
  the target; an aggregate matches when one of its members does.
\<close>

fun errors_Is :: "error \<Rightarrow> error \<Rightarrow> bool" where
  "errors_Is (Wrapped m e) t = (Wrapped m e = t \<or> errors_Is e t)"
| "errors_Is (MultiError es) t = (MultiError es = t \<or> (\<exists>e \<in> set es. errors_Is e t))"
| "errors_Is e t = (e = t)"

definition errors_Is_opt :: "error option \<Rightarrow> error \<Rightarrow> bool" where
  "errors_Is_opt err t = (case err of None \<Rightarrow> False | Some e \<Rightarrow> errors_Is e t)"

text \<open>
  \<^verbatim>\<open>multierr.Combine\<close>: nil when every argument is nil, the argument itself when exactly one
  is not nil, otherwise an aggregate of the non-nil arguments in order, with the members of
  an argument that is itself an aggregate spliced in. \<^verbatim>\<open>multierr.Errors\<close> lists what an
  error is made of.
\<close>

fun flatten_err :: "error \<Rightarrow> error list" where
  "flatten_err (MultiError es) = es"
| "flatten_err e = [e]"

definition Combine :: "error option list \<Rightarrow> error option" where
  "Combine errs =
     (case List.map_filter id errs of
        [] \<Rightarrow> None
      | [e] \<Rightarrow> Some e
      | e # e' # es \<Rightarrow> Some (MultiError (concat (map flatten_err (e # e' # es)))))"

definition Errors :: "error option \<Rightarrow> error list" where
  "Errors err = (case err of None \<Rightarrow> [] | Some e \<Rightarrow> flatten_err e)"

text \<open>
  \<^verbatim>\<open>(*serveH1H2).Run\<close> as a function of what its calls return: the socket's Listen, the
  callback, the engine's Serve (received from the channel) and the listener's Close. A
  Listen error is returned at once.
\<close>

definition serveErrorH1H2 :: "error option \<Rightarrow> error option" where
  "serveErrorH1H2 serveError =
     (if errors_Is_opt serveError ErrServerClosed then None else serveError)"

definition serveH1H2_Run ::
  "error option \<Rightarrow> error option \<Rightarrow> error option \<Rightarrow> error option \<Rightarrow> error option" where
  "serveH1H2_Run listenError callbackError serveError closeError =
     (case listenError of
        Some err \<Rightarrow> Some err
      | None \<Rightarrow> Combine [callbackError, serveErrorH1H2 serveError, closeError])"

text \<open>
  \<^verbatim>\<open>(*serveH3).Run\<close>: the packet socket's Listen and \<^verbatim>\<open>quic.ListenEarly\<close> may fail first; the
  packet connection is closed last and its error joins the aggregate.
\<close>

definition serveErrorH3 :: "error option \<Rightarrow> error option" where
  "serveErrorH3 serveError =
     (if errors_Is_opt serveError QuicErrServerClosed \<or> errors_Is_opt serveError ErrServerClosed
      then None else serveError)"

definition serveH3_Run ::
  "error option \<Rightarrow> error option \<Rightarrow> error option \<Rightarrow> error option \<Rightarrow> error option
     \<Rightarrow> error option \<Rightarrow> error option" where
  "serveH3_Run listenError listenEarlyError callbackError serveError closeError closePacketConnError =
     (case listenError of
        Some err \<Rightarrow> Some err
      | None \<Rightarrow>
          (case listenEarlyError of
             Some err \<Rightarrow> Some err
           | None \<Rightarrow>
               Combine [callbackError, serveErrorH3 serveError, closeError, closePacketConnError]))"

section \<open>Fatal handler panics (panic.go)\<close>

text \<open>
  A panic value is any Go value: the nil interface value, \<^verbatim>\<open>http.ErrAbortHandler\<close>, or
  another one. With the language version the repository's modules declare (go 1.18),
  \<^verbatim>\<open>recover()\<close> returns the value the goroutine panicked with, so it returns nil, here
  \<open>None\<close>, both when the handler returned without panicking and when it called
  \<^verbatim>\<open>panic(nil)\<close>; in both cases the panic, if any, is over when \<^verbatim>\<open>recover()\<close> has returned.
\<close>

datatype panic_value = PanicNil | ErrAbortHandler | PanicValue string

datatype outcome = Returns | Panics panic_value

datatype stderr_item = Text string | Value panic_value | Stack

datatype fate =
    Returned
  | Exited nat "stderr_item list"

definition recover :: "outcome \<Rightarrow> panic_value option" where
  "recover out =
     (case out of
        Returns \<Rightarrow> None
      | Panics PanicNil \<Rightarrow> None
      | Panics v \<Rightarrow> Some v)"

fun excepted :: "panic_value \<Rightarrow> panic_value list \<Rightarrow> bool" where
  "excepted e [] = False"
| "excepted e (v # vs) = (if e = v then True else excepted e vs)"

definition exitOnPanic :: "panic_value list \<Rightarrow> outcome \<Rightarrow> fate" where
  "exitOnPanic except out =
     (case recover out of
        None \<Rightarrow> Returned
      | Some e \<Rightarrow>
          if excepted e except then Returned
          else Exited 2 [Text ''panic in http.Handler: '', Value e, Text ''\<newline>\<newline>'', Stack])"

definition exitOnPanicHandler :: "outcome \<Rightarrow> fate" where
  "exitOnPanicHandler h = exitOnPanic [ErrAbortHandler] h"

section \<open>TLS socket constructors (tls.go)\<close>

text \<open>
  A \<^verbatim>\<open>*tls.Config\<close> is an address into a store of configurations, or nil. Of the
  configuration only \<^verbatim>\<open>NextProtos\<close> is read here; a nil slice is \<open>None\<close>. The other
  fields travel as one value.
\<close>

record 'a tls_Config =
  NextProtos :: "string list option"
  rest :: 'a

record 'a store =
  cells :: "nat \<Rightarrow> 'a tls_Config"
  next_free :: nat

datatype fault = NilPointerDereference

definition Clone :: "'a store \<Rightarrow> nat \<Rightarrow> 'a store \<times> nat" where
  "Clone s p = (s\<lparr>cells := (cells s)(next_free s := cells s p), next_free := Suc (next_free s)\<rparr>,
                next_free s)"

definition defaultNextProtosH2 :: "'a store \<Rightarrow> nat option \<Rightarrow> fault + ('a store \<times> nat)" where
  "defaultNextProtosH2 s c =
     (case c of
        None \<Rightarrow> Inl NilPointerDereference
      | Some p \<Rightarrow>
          if NextProtos (cells s p) \<noteq> None then Inr (s, p)
          else
            let (s', q) = Clone s p
            in Inr (s'\<lparr>cells := (cells s')(q := (cells s' q)\<lparr>NextProtos := Some [''h2'']\<rparr>)\<rparr>, q))"

record tlsListener =
  Socket :: string
  TLSConfig :: nat
  Optional :: bool
  Timeout :: int

definition millisecond :: int where
  "millisecond = 1000000"

definition TLS :: "'a store \<Rightarrow> string \<Rightarrow> nat option \<Rightarrow> fault + ('a store \<times> tlsListener)" where
  "TLS s address c =
     (case defaultNextProtosH2 s c of
        Inl f \<Rightarrow> Inl f
      | Inr (s', q) \<Rightarrow>
          Inr (s', \<lparr>Socket = address, TLSConfig = q, Optional = False, Timeout = 0\<rparr>))"

definition OptionalTLS ::
  "'a store \<Rightarrow> string \<Rightarrow> nat option \<Rightarrow> int \<Rightarrow> fault + ('a store \<times> tlsListener)" where
  "OptionalTLS s address c timeout =
     (let timeout' = (if timeout \<le> 0 then 50 * millisecond else timeout)
      in case defaultNextProtosH2 s c of
           Inl f \<Rightarrow> Inl f
         | Inr (s', q) \<Rightarrow>
             Inr (s', \<lparr>Socket = address, TLSConfig = q, Optional = True, Timeout = timeout'\<rparr>))"

section \<open>Listeners that close once (h1h2.go, h3.go)\<close>

text \<open>
  \<^verbatim>\<open>onceCloseListener\<close> and \<^verbatim>\<open>onceCloseEarlyListener\<close> have the same fields and the same
  \<^verbatim>\<open>Close\<close>; they differ in the type of the embedded listener only, so one model serves
  both. The embedded listener is a counting stub: its state is the number of times its
  \<^verbatim>\<open>Close\<close> ran, and \<open>res k\<close> is what the call after \<open>k\<close> earlier ones returns.

  \<^verbatim>\<open>Close\<close> is two steps, so that concurrent calls interleave: \<^verbatim>\<open>l.once.Do(...)\<close>, which
  \<^verbatim>\<open>sync.Once\<close> makes atomic with respect to other callers, and the read of \<^verbatim>\<open>l.err\<close> for
  the return value. A schedule names the thread that moves next; a thread that has
  returned, or an index that is no thread, leaves the system as it is.
\<close>

record onceCloseListener =
  Listener :: nat
  once :: bool
  err :: "error option"

definition Listener_Close :: "(nat \<Rightarrow> error option) \<Rightarrow> nat \<Rightarrow> nat \<times> error option" where
  "Listener_Close res n = (Suc n, res n)"

datatype close_pc = CallDo | ReadErr | Ret "error option"

definition Close_step ::
  "(nat \<Rightarrow> error option) \<Rightarrow> onceCloseListener \<Rightarrow> close_pc \<Rightarrow> onceCloseListener \<times> close_pc" where
  "Close_step res l pc =
     (case pc of
        CallDo \<Rightarrow>
          (if once l then (l, ReadErr)
           else
             let (n, e) = Listener_Close res (Listener l)
             in (l\<lparr>Listener := n, err := e, once := True\<rparr>, ReadErr))
      | ReadErr \<Rightarrow> (l, Ret (err l))
      | Ret r \<Rightarrow> (l, Ret r))"

definition close_thread :: "(nat \<Rightarrow> error option) \<Rightarrow> nat \<Rightarrow> onceCloseListener \<times> close_pc list
    \<Rightarrow> onceCloseListener \<times> close_pc list" where
  "close_thread res i sys =
     (let (l, pcs) = sys
      in if i < length pcs
         then let (l', pc') = Close_step res l (pcs ! i) in (l', pcs[i := pc'])
         else (l, pcs))"

fun close_run :: "(nat \<Rightarrow> error option) \<Rightarrow> nat list \<Rightarrow> onceCloseListener \<times> close_pc list
    \<Rightarrow> onceCloseListener \<times> close_pc list" where
  "close_run res [] sys = sys"
| "close_run res (i # sch) sys = close_run res sch (close_thread res i sys)"

definition close_init :: "nat \<Rightarrow> onceCloseListener \<times> close_pc list" where
  "close_init n = (\<lparr>Listener = 0, once = False, err = None\<rparr>, replicate n CallDo)"

definition close_inv :: "(nat \<Rightarrow> error option) \<Rightarrow> onceCloseListener \<times> close_pc list \<Rightarrow> bool" where
  "close_inv res sys =
     (let (l, pcs) = sys
      in if once l
         then Listener l = 1 \<and> err l = res 0 \<and> (\<forall>pc \<in> set pcs. case pc of Ret r \<Rightarrow> r = res 0 | _ \<Rightarrow> True)
         else Listener l = 0 \<and> (\<forall>pc \<in> set pcs. pc = CallDo))"


text \<open>How far a call has got: 0 before \<^verbatim>\<open>once.Do\<close>, 1 after it, 2 once it has returned.\<close>

fun rank_pc :: "close_pc \<Rightarrow> nat" where
  "rank_pc CallDo = 0"
| "rank_pc ReadErr = 1"
| "rank_pc (Ret r) = 2"


section \<open>Optional TLS: sniffing the first byte (tls.go)\<close>

type_synonym byte = "8 word"

text \<open>
  \<^verbatim>\<open>bufferedConn\<close>: the accepted connection, here the bytes the client sends that the server
  has not read yet, and the \<^verbatim>\<open>bufio.Reader\<close> on it, here the bytes it holds. What a reader
  of the \<^verbatim>\<open>bufferedConn\<close> still has to come is \<open>unread\<close>.
\<close>

record bufferedConn =
  Conn :: "byte list"
  br :: "byte list"

definition unread :: "bufferedConn \<Rightarrow> byte list" where
  "unread bc = br bc @ Conn bc"

text \<open>
  \<^verbatim>\<open>bufio.NewReaderSize(c, 1)\<close> allocates the smallest buffer bufio has, 16 bytes.
  \<^verbatim>\<open>br.Peek(1)\<close> fills the empty buffer with one read of the connection and returns the
  first byte without consuming it. \<open>arrived\<close> is the number of bytes that read obtains
  before the deadline set from \<^verbatim>\<open>t.Timeout\<close>: with none (time-out, reset, end of stream)
  the read fails and \<^verbatim>\<open>Peek\<close> returns an error, here \<open>None\<close>.
\<close>

definition minReadBufferSize :: nat where
  "minReadBufferSize = 16"

definition Peek1 :: "nat \<Rightarrow> bufferedConn \<Rightarrow> byte option \<times> bufferedConn" where
  "Peek1 arrived bc =
     (case br bc of
        b # bs \<Rightarrow> (Some b, bc)
      | [] \<Rightarrow>
          (case take (min arrived minReadBufferSize) (Conn bc) of
             [] \<Rightarrow> (None, bc)
           | b # bs \<Rightarrow> (Some b, bc\<lparr>br := b # bs, Conn := drop (length (b # bs)) (Conn bc)\<rparr>)))"

text \<open>
  \<^verbatim>\<open>(*bufferedConn).Read\<close> is \<^verbatim>\<open>b.br.Read(p)\<close> with \<open>n = len(p)\<close>: buffered bytes first; with
  an empty buffer a read of \<open>n\<close> bytes or more than the buffer goes to the connection
  directly, a smaller one refills the buffer first. It returns the bytes read.
\<close>

definition Read :: "nat \<Rightarrow> nat \<Rightarrow> bufferedConn \<Rightarrow> byte list \<times> bufferedConn" where
  "Read n arrived bc =
     (if n = 0 then ([], bc)
      else if br bc = [] then
        (if minReadBufferSize \<le> n
         then let d = take (min arrived n) (Conn bc)
              in (d, bc\<lparr>Conn := drop (length d) (Conn bc)\<rparr>)
         else let d = take (min arrived minReadBufferSize) (Conn bc)
              in (take n d, bc\<lparr>br := drop n d, Conn := drop (length d) (Conn bc)\<rparr>))
      else (take n (br bc), bc\<lparr>br := drop n (br bc)\<rparr>))"

text \<open>
  What \<^verbatim>\<open>(*tlsAcceptor).sniff\<close> returns: the \<^verbatim>\<open>bufferedConn\<close> itself, or
  \<^verbatim>\<open>tls.Server(bc, t.TLSConfig)\<close>, which reads its records through the same \<^verbatim>\<open>bufferedConn\<close>.
\<close>

datatype 'c sniffed =
    Buffered bufferedConn
  | TLSServer bufferedConn 'c

definition recordTypeHandshake :: byte where
  "recordTypeHandshake = 22"

definition sniff :: "'c \<Rightarrow> nat \<Rightarrow> byte list \<Rightarrow> 'c sniffed" where
  "sniff tlsConfig arrived c =
     (let (buf, bc) = Peek1 arrived \<lparr>Conn = c, br = []\<rparr>
      in case buf of
           None \<Rightarrow> Buffered bc
         | Some b \<Rightarrow> if b \<noteq> recordTypeHandshake then Buffered bc else TLSServer bc tlsConfig)"

fun shim :: "'c sniffed \<Rightarrow> bufferedConn" where
  "shim (Buffered bc) = bc"
| "shim (TLSServer bc cfg) = bc"

fun is_TLS :: "'c sniffed \<Rightarrow> bool" where
  "is_TLS (Buffered bc) = False"
| "is_TLS (TLSServer bc cfg) = True"

text \<open>A sequence of reads, each with its buffer length and what the connection delivers.\<close>

fun Reads :: "(nat \<times> nat) list \<Rightarrow> bufferedConn \<Rightarrow> byte list \<times> bufferedConn" where
  "Reads [] bc = ([], bc)"
| "Reads ((n, arrived) # rs) bc =
     (let (d, bc') = Read n arrived bc; (ds, bc'') = Reads rs bc' in (d @ ds, bc''))"


section \<open>Connection tracking (connTrack)\<close>

text \<open>
  \<^verbatim>\<open>(*Server).connTrack\<close>, the \<^verbatim>\<open>ConnState\<close> hook of the HTTP/1 engine, as its effect on the
  counter of \<^verbatim>\<open>s.connWG\<close>. The engine reports \<^verbatim>\<open>StateNew\<close> once, before it serves the
  connection, then \<^verbatim>\<open>StateActive\<close> and \<^verbatim>\<open>StateIdle\<close> any number of times, and last either
  \<^verbatim>\<open>StateHijacked\<close> or \<^verbatim>\<open>StateClosed\<close>.
\<close>

datatype ConnState = StateNew | StateActive | StateIdle | StateHijacked | StateClosed

definition connTrack :: "ConnState \<Rightarrow> int \<Rightarrow> int" where
  "connTrack state connWG =
     (case state of
        StateNew \<Rightarrow> connWG + 1
      | StateHijacked \<Rightarrow> connWG - 1
      | StateClosed \<Rightarrow> connWG - 1
      | _ \<Rightarrow> connWG)"


section \<open>Cleartext HTTP/2 with prior knowledge (h2c.go)\<close>

text \<open>
  The shutdown bookkeeping of \<^verbatim>\<open>h2cHandler\<close>: the set of pending connections, keyed by the
  address of the \<^verbatim>\<open>rwConn\<close> placeholder, with the tracked flag as value (a nil map is the
  empty map), and the counters of the two wait groups.
\<close>

record h2cHandler =
  conns :: "nat \<rightharpoonup> bool"
  trackWG :: int
  serveWG :: int

definition addPending :: "nat \<Rightarrow> h2cHandler \<Rightarrow> h2cHandler" where
  "addPending c h = h\<lparr>conns := (conns h)(c \<mapsto> False), trackWG := trackWG h + 1, serveWG := serveWG h + 1\<rparr>"

definition setTracked :: "nat \<Rightarrow> h2cHandler \<Rightarrow> h2cHandler" where
  "setTracked c h =
     (case conns h c of
        None \<Rightarrow> h
      | Some tracked \<Rightarrow>
          if tracked then h
          else h\<lparr>conns := (conns h)(c \<mapsto> True), trackWG := trackWG h - 1\<rparr>)"

definition removeConn :: "nat \<Rightarrow> h2cHandler \<Rightarrow> h2cHandler" where
  "removeConn c h =
     (case conns h c of
        None \<Rightarrow> h
      | Some tracked \<Rightarrow>
          h\<lparr>conns := (conns h)(c := None),
            trackWG := (if \<not> tracked then trackWG h - 1 else trackWG h),
            serveWG := serveWG h - 1\<rparr>)"

text \<open>
  What can happen to a registered placeholder afterwards, in any order and number: the
  engine's notification (\<^verbatim>\<open>setTracked\<close>) and the removal (\<^verbatim>\<open>removeConn\<close>).
\<close>

datatype h2c_event = Tracked | Removed

fun h2c_events :: "nat \<Rightarrow> h2c_event list \<Rightarrow> h2cHandler \<Rightarrow> h2cHandler" where
  "h2c_events c [] h = h"
| "h2c_events c (Tracked # es) h = h2c_events c es (setTracked c h)"
| "h2c_events c (Removed # es) h = h2c_events c es (removeConn c h)"

text \<open>
  The \<^verbatim>\<open>http.ResponseWriter\<close> of the request: it is no \<^verbatim>\<open>http.Hijacker\<close>, or its \<^verbatim>\<open>Hijack\<close>
  fails, or it hands over the connection with its buffered reader. The reader is the
  bytes that can still be read, in order, and how reading ends after them. (A peer that
  sends too little and then stays silent is not a value of this type: \<^verbatim>\<open>io.ReadFull\<close> does
  not return then.)
\<close>

datatype ending = EOF | ReadError error

record hijacked =
  pending :: string
  ending :: ending

datatype writer =
    NotHijacker
  | HijackFails error
  | Hijacks hijacked

definition CR :: char where "CR = CHR 0x0D"
definition LF :: char where "LF = CHR 0x0A"

definition expectedBody :: string where
  "expectedBody = ''SM'' @ [CR, LF, CR, LF]"

definition ClientPreface :: string where
  "ClientPreface = ''PRI * HTTP/2.0'' @ [CR, LF, CR, LF] @ ''SM'' @ [CR, LF, CR, LF]"

text \<open>
  \<^verbatim>\<open>io.ReadFull(rw, buf)\<close> with \<open>m = len(buf)\<close>: \<open>m\<close> bytes and no error, or the bytes there
  were and the error that ended the reading (\<^verbatim>\<open>io.EOF\<close> after no byte,
  \<^verbatim>\<open>io.ErrUnexpectedEOF\<close> after some).
\<close>

definition io_ReadFull :: "nat \<Rightarrow> hijacked \<Rightarrow> string \<times> error option \<times> hijacked" where
  "io_ReadFull m rw =
     (if m \<le> length (pending rw)
      then (take m (pending rw), None, rw\<lparr>pending := drop m (pending rw)\<rparr>)
      else (pending rw,
            Some (case ending rw of
                    ReadError e \<Rightarrow> e
                  | EOF \<Rightarrow> if pending rw = [] then ErrOther ''EOF''
                           else ErrOther ''unexpected EOF''),
            rw\<lparr>pending := []\<rparr>))"

text \<open>
  The \<^verbatim>\<open>rwConn\<close> handed to the HTTP/2 engine, as far as reading goes: \<^verbatim>\<open>Reader\<close> is what
  \<^verbatim>\<open>io.MultiReader(strings.NewReader(http2.ClientPreface), rw)\<close> yields.
\<close>

record rwConn =
  Reader :: string
  Reader_ending :: ending

text \<open>
  \<^verbatim>\<open>initH2CWithPriorKnowledge\<close>, with \<open>c\<close> the address of the fresh \<^verbatim>\<open>rwConn\<close>. The result
  carries the handler's bookkeeping after the deferred function ran, whether
  \<^verbatim>\<open>conn.Close()\<close> was called, and the returned pair. The deferred function reads the
  named result \<^verbatim>\<open>err\<close>: it returns at once when \<^verbatim>\<open>err != nil\<close> and calls \<^verbatim>\<open>removeConn(c)\<close>
  otherwise.
\<close>

record init_result =
  handler :: h2cHandler
  conn_closed :: bool
  returned :: "error + rwConn"

definition initH2CWithPriorKnowledge :: "h2cHandler \<Rightarrow> nat \<Rightarrow> writer \<Rightarrow> init_result" where
  "initH2CWithPriorKnowledge h c w =
     (case w of
        NotHijacker \<Rightarrow>
          \<lparr>handler = h, conn_closed = False, returned = Inl (ErrOther ''hijack not supported'')\<rparr>
      | _ \<Rightarrow>
          let h' = addPending c h;
              (closed, res) =
                (case w of
                   Hijacks rw \<Rightarrow>
                     let (buf, rerr, rw') = io_ReadFull (length expectedBody) rw
                     in (case rerr of
                           Some e \<Rightarrow> (True, Inl (Wrapped ''could not read from the buffer'' e))
                         | None \<Rightarrow>
                             if buf \<noteq> expectedBody
                             then (True, Inl (ErrOther ''invalid client preface''))
                             else (False, Inr \<lparr>Reader = ClientPreface @ pending rw',
                                               Reader_ending = ending rw'\<rparr>))
                 | HijackFails e \<Rightarrow> (False, Inl (Wrapped ''hijack failed'' e))
                 | NotHijacker \<Rightarrow> (False, Inl (ErrOther ''hijack not supported'')))
          in \<lparr>handler = (case res of Inl e \<Rightarrow> h' | Inr conn \<Rightarrow> removeConn c h'),
              conn_closed = closed, returned = res\<rparr>)"

text \<open>
  \<^verbatim>\<open>serveH2CWithPriorKnowledge\<close>: on an error it logs and panics with
  \<^verbatim>\<open>http.ErrAbortHandler\<close>; otherwise it calls \<^verbatim>\<open>h.h2.ServeConn\<close> on the connection and
  removes it when that returns. \<open>notified\<close> tells whether the engine called the
  \<^verbatim>\<open>ConnState\<close> hook of the base configuration, that is \<^verbatim>\<open>setTracked\<close>, meanwhile.
\<close>

record serve_result =
  handler_after :: h2cHandler
  raw_closed :: bool
  logged :: "error list"
  ServeConn :: "rwConn option"
  ended :: outcome

definition serveH2CWithPriorKnowledge ::
  "h2cHandler \<Rightarrow> nat \<Rightarrow> writer \<Rightarrow> bool \<Rightarrow> serve_result" where
  "serveH2CWithPriorKnowledge h c w notified =
     (let r = initH2CWithPriorKnowledge h c w
      in case returned r of
           Inl e \<Rightarrow>
             \<lparr>handler_after = handler r, raw_closed = conn_closed r, logged = [e],
              ServeConn = None, ended = Panics ErrAbortHandler\<rparr>
         | Inr conn \<Rightarrow>
             let h' = (if notified then setTracked c (handler r) else handler r)
             in \<lparr>handler_after = removeConn c h', raw_closed = conn_closed r, logged = [],
                 ServeConn = Some conn, ended = Returns\<rparr>)"


section \<open>The abortable handler and the end of Run (h2c.go, server.go)\<close>

text \<open>
  \<^verbatim>\<open>abortableHandler\<close> is shared by the goroutines of the engines and by \<^verbatim>\<open>Run\<close>, so its
  methods are modelled statement by statement and interleaved: a thread is a call in
  progress, identified by the statement it executes next. A call of \<^verbatim>\<open>ServeHTTP\<close>:
  \<^verbatim>\<open>h.mu.Lock()\<close>, \<^verbatim>\<open>stopped := h.stopped\<close>, \<^verbatim>\<open>if !stopped { h.wg.Add(1) }\<close>,
  \<^verbatim>\<open>h.mu.Unlock()\<close>, \<^verbatim>\<open>if stopped { panic(http.ErrAbortHandler) }\<close>, the call of the wrapped
  handler, the time inside it, the deferred \<^verbatim>\<open>h.wg.Done()\<close>, and the end of the call, by
  return or by panic. The local variable \<^verbatim>\<open>stopped\<close> travels with the statement.
\<close>

datatype serve_pc =
    S_Lock
  | S_Load
  | S_Add bool
  | S_Unlock bool
  | S_Check bool
  | S_Call
  | S_Handler
  | S_Done outcome
  | S_End outcome

text \<open>
  A call of \<^verbatim>\<open>Stop\<close>: \<^verbatim>\<open>h.mu.Lock()\<close>, \<^verbatim>\<open>h.stopped = true\<close>, \<^verbatim>\<open>h.mu.Unlock()\<close>,
  \<^verbatim>\<open>h.wg.Wait()\<close>, returned.
\<close>

datatype stop_pc = T_Lock | T_Set | T_Unlock | T_Wait | T_End

text \<open>
  \<^verbatim>\<open>(*Server).Run\<close> as far as the handler is concerned: up to \<^verbatim>\<open>http2.ConfigureServer\<close>, whose
  error makes \<^verbatim>\<open>Run\<close> return before any runner exists; \<^verbatim>\<open>listenAndServe.Run\<close>, during which
  the engines serve; \<^verbatim>\<open>s.connWG.Wait()\<close>; \<^verbatim>\<open>h2c.Shutdown(ctx)\<close>; \<^verbatim>\<open>sh.Stop()\<close>; returned.
\<close>

datatype run_pc =
    R_Configure
  | R_Serve
  | R_connWG_Wait
  | R_h2c_Shutdown
  | R_Stop stop_pc
  | R_End

datatype thread =
    Serve serve_pc
  | Stopper stop_pc
  | Runner run_pc

text \<open>
  The shared state: the three fields of \<^verbatim>\<open>abortableHandler\<close> (the mutex as locked or not,
  the counter of the wait group, the flag), whether the engines have been started, how
  often the wrapped handler has been entered, and the threads.
\<close>

record system =
  mu :: bool
  wg :: int
  stopped :: bool
  serving :: bool
  invocations :: nat
  threads :: "thread list"

text \<open>
  What the environment decides: the wrapped handler returns or panics with a value, and
  \<^verbatim>\<open>http2.ConfigureServer\<close> succeeds or fails. A step is \<open>None\<close> when the statement cannot
  run: the mutex is taken, the counter is not zero at \<^verbatim>\<open>Wait\<close>, the call is over.
  \<^verbatim>\<open>wg.Done()\<close> that makes the counter negative panics.
\<close>

datatype choice = Proceed | Panic panic_value | Fail

definition serve_step :: "choice \<Rightarrow> serve_pc \<Rightarrow> system \<Rightarrow> (serve_pc \<times> system) option" where
  "serve_step ch pc s =
     (case pc of
        S_Lock \<Rightarrow> if mu s then None else Some (S_Load, s\<lparr>mu := True\<rparr>)
      | S_Load \<Rightarrow> Some (S_Add (stopped s), s)
      | S_Add b \<Rightarrow> Some (S_Unlock b, if \<not> b then s\<lparr>wg := wg s + 1\<rparr> else s)
      | S_Unlock b \<Rightarrow> Some (S_Check b, s\<lparr>mu := False\<rparr>)
      | S_Check b \<Rightarrow> Some (if b then S_End (Panics ErrAbortHandler) else S_Call, s)
      | S_Call \<Rightarrow> Some (S_Handler, s\<lparr>invocations := Suc (invocations s)\<rparr>)
      | S_Handler \<Rightarrow>
          (case ch of
             Proceed \<Rightarrow> Some (S_Done Returns, s)
           | Panic v \<Rightarrow> Some (S_Done (Panics v), s)
           | Fail \<Rightarrow> None)
      | S_Done out \<Rightarrow>
          Some (if wg s - 1 < 0 then S_End (Panics (PanicValue ''sync: negative WaitGroup counter''))
                else S_End out,
                s\<lparr>wg := wg s - 1\<rparr>)
      | S_End out \<Rightarrow> None)"

definition stop_step :: "stop_pc \<Rightarrow> system \<Rightarrow> (stop_pc \<times> system) option" where
  "stop_step pc s =
     (case pc of
        T_Lock \<Rightarrow> if mu s then None else Some (T_Set, s\<lparr>mu := True\<rparr>)
      | T_Set \<Rightarrow> Some (T_Unlock, s\<lparr>stopped := True\<rparr>)
      | T_Unlock \<Rightarrow> Some (T_Wait, s\<lparr>mu := False\<rparr>)
      | T_Wait \<Rightarrow> if wg s = 0 then Some (T_End, s) else None
      | T_End \<Rightarrow> None)"

definition run_step :: "choice \<Rightarrow> run_pc \<Rightarrow> system \<Rightarrow> (run_pc \<times> system) option" where
  "run_step ch pc s =
     (case pc of
        R_Configure \<Rightarrow>
          (case ch of
             Proceed \<Rightarrow> Some (R_Serve, s\<lparr>serving := True\<rparr>)
           | Fail \<Rightarrow> Some (R_End, s)
           | Panic v \<Rightarrow> None)
      | R_Serve \<Rightarrow> Some (R_connWG_Wait, s)
      | R_connWG_Wait \<Rightarrow> Some (R_h2c_Shutdown, s)
      | R_h2c_Shutdown \<Rightarrow> Some (R_Stop T_Lock, s)
      | R_Stop T_End \<Rightarrow> Some (R_End, s)
      | R_Stop p \<Rightarrow>
          (case stop_step p s of None \<Rightarrow> None | Some (p', s') \<Rightarrow> Some (R_Stop p', s'))
      | R_End \<Rightarrow> None)"

definition thread_step :: "choice \<Rightarrow> thread \<Rightarrow> system \<Rightarrow> (thread \<times> system) option" where
  "thread_step ch t s =
     (case t of
        Serve pc \<Rightarrow>
          (case serve_step ch pc s of None \<Rightarrow> None | Some (pc', s') \<Rightarrow> Some (Serve pc', s'))
      | Stopper pc \<Rightarrow>
          (case stop_step pc s of None \<Rightarrow> None | Some (pc', s') \<Rightarrow> Some (Stopper pc', s'))
      | Runner pc \<Rightarrow>
          (case run_step ch pc s of None \<Rightarrow> None | Some (pc', s') \<Rightarrow> Some (Runner pc', s')))"

text \<open>
  The engines are the environment. All three are given the same handler value, the
  abortable handler under \<^verbatim>\<open>exitOnPanicHandler\<close> (\<^verbatim>\<open>h1.Handler\<close>, the fallback and the
  HTTP/2 handler of h2c, \<^verbatim>\<open>h3.Handler\<close>), so every call of the server's handler is a call
  of \<^verbatim>\<open>sh.ServeHTTP\<close>; such a call may arrive at any moment from the start of the engines
  on, also after \<^verbatim>\<open>Run\<close> has returned (the HTTP/2 engine calls the handler from goroutines
  of its own). Anybody may call \<^verbatim>\<open>Stop\<close>. A schedule is a list of actions; it runs as
  long as each action can.
\<close>

datatype action =
    Call_ServeHTTP
  | Call_Stop
  | Step nat choice

definition exec :: "action \<Rightarrow> system \<Rightarrow> system option" where
  "exec a s =
     (case a of
        Call_ServeHTTP \<Rightarrow>
          if serving s then Some (s\<lparr>threads := threads s @ [Serve S_Lock]\<rparr>) else None
      | Call_Stop \<Rightarrow> Some (s\<lparr>threads := threads s @ [Stopper T_Lock]\<rparr>)
      | Step i ch \<Rightarrow>
          if i < length (threads s)
          then (case thread_step ch (threads s ! i) s of
                  None \<Rightarrow> None
                | Some (t', s') \<Rightarrow> Some (s'\<lparr>threads := (threads s)[i := t']\<rparr>))
          else None)"

fun run :: "action list \<Rightarrow> system \<Rightarrow> system option" where
  "run [] s = Some s"
| "run (a # as) s = (case exec a s of None \<Rightarrow> None | Some s' \<Rightarrow> run as s')"

text \<open>
  Two initial states: a new handler that callers can reach, and a server whose \<^verbatim>\<open>Run\<close>
  has just been called, as thread 0.
\<close>

definition newAbortableHandler :: system where
  "newAbortableHandler =
     \<lparr>mu = False, wg = 0, stopped = False, serving = True, invocations = 0, threads = []\<rparr>"

definition Server_Run :: system where
  "Server_Run =
     \<lparr>mu = False, wg = 0, stopped = False, serving = False, invocations = 0,
      threads = [Runner R_Configure]\<rparr>"

text \<open>
  The calls the counter stands for (between \<^verbatim>\<open>Add\<close> and \<^verbatim>\<open>Done\<close>), the threads inside the
  critical section, and what each thread knows about the shared fields.
\<close>

fun in_flight :: "thread \<Rightarrow> bool" where
  "in_flight (Serve (S_Unlock b)) = (\<not> b)"
| "in_flight (Serve (S_Check b)) = (\<not> b)"
| "in_flight (Serve S_Call) = True"
| "in_flight (Serve S_Handler) = True"
| "in_flight (Serve (S_Done out)) = True"
| "in_flight t = False"

fun holds_mu :: "thread \<Rightarrow> bool" where
  "holds_mu (Serve S_Load) = True"
| "holds_mu (Serve (S_Add b)) = True"
| "holds_mu (Serve (S_Unlock b)) = True"
| "holds_mu (Stopper T_Set) = True"
| "holds_mu (Stopper T_Unlock) = True"
| "holds_mu (Runner (R_Stop T_Set)) = True"
| "holds_mu (Runner (R_Stop T_Unlock)) = True"
| "holds_mu t = False"

fun is_Runner :: "thread \<Rightarrow> bool" where
  "is_Runner (Runner pc) = True"
| "is_Runner t = False"

fun is_Serve :: "thread \<Rightarrow> bool" where
  "is_Serve (Serve pc) = True"
| "is_Serve t = False"

fun past_Set :: "stop_pc \<Rightarrow> bool" where
  "past_Set T_Lock = False"
| "past_Set T_Set = False"
| "past_Set p = True"

fun local_ok :: "system \<Rightarrow> thread \<Rightarrow> bool" where
  "local_ok s (Serve (S_Add b)) = (b = stopped s)"
| "local_ok s (Serve (S_Unlock b)) = (b = stopped s)"
| "local_ok s (Stopper p) = (if past_Set p then stopped s else True)"
| "local_ok s (Runner (R_Stop p)) = (if past_Set p then stopped s else True)"
| "local_ok s (Runner R_End) = (if serving s then stopped s \<and> wg s = 0 else True)"
| "local_ok s (Runner R_Configure) = (\<not> serving s)"
| "local_ok s t = True"

fun Stop_returned :: "thread \<Rightarrow> bool" where
  "Stop_returned (Stopper T_End) = True"
| "Stop_returned (Runner (R_Stop T_End)) = True"
| "Stop_returned t = False"

definition cnt :: "('a \<Rightarrow> bool) \<Rightarrow> 'a list \<Rightarrow> int" where
  "cnt P ts = int (length (filter P ts))"

definition gate_inv :: "system \<Rightarrow> bool" where
  "gate_inv s =
     (wg s = cnt in_flight (threads s)
      \<and> cnt holds_mu (threads s) = (if mu s then 1 else 0)
      \<and> list_all (local_ok s) (threads s)
      \<and> (list_ex Stop_returned (threads s) \<longrightarrow> stopped s \<and> wg s = 0)
      \<and> cnt is_Runner (threads s) \<le> 1
      \<and> (\<not> serving s \<longrightarrow> \<not> list_ex is_Serve (threads s)))"

text \<open>
  A call that has read the flag as set, up to its panic with \<^verbatim>\<open>http.ErrAbortHandler\<close>; and
  the states from which the wrapped handler is not entered any more.
\<close>

fun aborting :: "thread \<Rightarrow> bool" where
  "aborting (Serve (S_Add b)) = b"
| "aborting (Serve (S_Unlock b)) = b"
| "aborting (Serve (S_Check b)) = b"
| "aborting (Serve (S_End out)) = (out = Panics ErrAbortHandler)"
| "aborting t = False"

definition quiet :: "system \<Rightarrow> bool" where
  "quiet s = ((stopped s \<and> wg s = 0) \<or> (\<not> serving s \<and> Runner R_End \<in> set (threads s)))"

section \<open>Theorems\<close>

text \<open>
  C3. The h2c handler takes the prior-knowledge path exactly for a request whose method is
  PRI, whose header set is empty, whose path is * and whose protocol is HTTP/2.0; every
  other request reaches the fallback handler, and it is the same request.
\<close>

theorem C3_h2c_detection:
  "(ServeHTTP r = H2CPriorKnowledge r) =
     (Method r = ''PRI'' \<and> Header r = [] \<and> URL_Path r = ''*'' \<and> Proto r = ''HTTP/2.0'')
   \<and> (ServeHTTP r = Fallback r) =
     (\<not> (Method r = ''PRI'' \<and> Header r = [] \<and> URL_Path r = ''*'' \<and> Proto r = ''HTTP/2.0''))"
  by (simp add: ServeHTTP_def)


subsection \<open>Runner errors\<close>

lemma Errors_Combine: "Errors (Combine errs) = concat (map Errors errs)"
proof -
  have flat: "concat (map Errors errs) = concat (map flatten_err (List.map_filter id errs))"
    by (induction errs) (auto simp: Errors_def split: option.splits)
  show ?thesis
    unfolding flat by (simp add: Combine_def Errors_def split: list.splits)
qed

lemma Combine_None: "(Combine errs = None) = (\<forall>e \<in> set errs. e = None)"
proof -
  have "(List.map_filter id errs = []) = (\<forall>e \<in> set errs. e = None)"
    by (induction errs) (auto split: option.splits)
  then show ?thesis
    by (auto simp: Combine_def split: list.splits)
qed

text \<open>
  C8. In both runners the serve loop's error counts as nil when it is nil or when
  \<^verbatim>\<open>errors.Is\<close> finds a server-closed sentinel in it (\<^verbatim>\<open>http.ErrServerClosed\<close>, and for QUIC
  also \<^verbatim>\<open>quic.ErrServerClosed\<close>), bare or wrapped; any other serve error is kept as it is,
  a wrapped one too. The runner's result is nil exactly when the callback error and the
  close error(s) are nil and the serve error counts as nil; what it is made of are the
  members of the callback error, of the serve error unless that counts as nil, and of the
  close error(s), all of them and in this order. A single failure is returned as it is,
  several as one aggregate.
\<close>

theorem C8_runner_error_aggregate:
  "serveH1H2_Run None cb (Some ErrServerClosed) cl = serveH1H2_Run None cb None cl
   \<and> serveH3_Run None None cb (Some ErrServerClosed) cl pc = serveH3_Run None None cb None cl pc
   \<and> serveH3_Run None None cb (Some QuicErrServerClosed) cl pc = serveH3_Run None None cb None cl pc
   \<and> serveH1H2_Run None cb (Some (Wrapped m ErrServerClosed)) cl = serveH1H2_Run None cb None cl
   \<and> serveErrorH1H2 (Some (ErrOther m)) = Some (ErrOther m)
   \<and> serveErrorH3 (Some (ErrOther m)) = Some (ErrOther m)
   \<and> Errors (serveH1H2_Run None cb se cl) = Errors cb @ Errors (serveErrorH1H2 se) @ Errors cl
   \<and> Errors (serveH3_Run None None cb se cl pc)
       = Errors cb @ Errors (serveErrorH3 se) @ Errors cl @ Errors pc
   \<and> (serveH1H2_Run None cb se cl = None) = (cb = None \<and> serveErrorH1H2 se = None \<and> cl = None)
   \<and> (serveH3_Run None None cb se cl pc = None)
       = (cb = None \<and> serveErrorH3 se = None \<and> cl = None \<and> pc = None)
   \<and> serveErrorH1H2 None = None
   \<and> serveErrorH1H2 (Some ErrServerClosed) = None
   \<and> serveErrorH1H2 (Some (Wrapped m ErrServerClosed)) = None
   \<and> serveErrorH1H2 (Some (Wrapped m (ErrOther x))) = Some (Wrapped m (ErrOther x))
   \<and> serveErrorH1H2 (Some e) = (if errors_Is e ErrServerClosed then None else Some e)
   \<and> serveErrorH3 None = None
   \<and> serveErrorH3 (Some ErrServerClosed) = None
   \<and> serveErrorH3 (Some QuicErrServerClosed) = None
   \<and> serveErrorH3 (Some (Wrapped m QuicErrServerClosed)) = None
   \<and> serveErrorH3 (Some (Wrapped m (ErrOther x))) = Some (Wrapped m (ErrOther x))
   \<and> serveErrorH3 (Some e)
       = (if errors_Is e QuicErrServerClosed \<or> errors_Is e ErrServerClosed then None else Some e)
   \<and> (serveH1H2_Run None cb se cl = None)
       = (cb = None \<and> (se = None \<or> errors_Is_opt se ErrServerClosed) \<and> cl = None)
   \<and> (serveH3_Run None None cb se cl pc = None)
       = (cb = None
          \<and> (se = None \<or> errors_Is_opt se QuicErrServerClosed \<or> errors_Is_opt se ErrServerClosed)
          \<and> cl = None \<and> pc = None)
   \<and> Errors (serveH1H2_Run None cb se cl)
       = Errors cb @ (if errors_Is_opt se ErrServerClosed then [] else Errors se) @ Errors cl
   \<and> Errors (serveH3_Run None None cb se cl pc)
       = Errors cb
         @ (if errors_Is_opt se QuicErrServerClosed \<or> errors_Is_opt se ErrServerClosed
            then [] else Errors se)
         @ Errors cl @ Errors pc
   \<and> serveH1H2_Run None None None None = None
   \<and> serveH1H2_Run None None (Some ErrServerClosed) None = None
   \<and> serveH1H2_Run None None (Some (Wrapped m (ErrOther x))) None = Some (Wrapped m (ErrOther x))
   \<and> serveH1H2_Run None (Some (ErrOther x)) (Some ErrServerClosed) None = Some (ErrOther x)
   \<and> serveH1H2_Run None (Some (ErrOther x)) (Some ErrServerClosed) (Some (ErrOther z))
       = Some (MultiError [ErrOther x, ErrOther z])
   \<and> serveH1H2_Run None (Some (ErrOther x)) (Some (ErrOther y)) (Some (ErrOther z))
       = Some (MultiError [ErrOther x, ErrOther y, ErrOther z])
   \<and> serveH1H2_Run None (Some (MultiError [ErrOther x, ErrOther y])) None (Some (ErrOther z))
       = Some (MultiError [ErrOther x, ErrOther y, ErrOther z])
   \<and> serveH3_Run None None None None None None = None
   \<and> serveH3_Run None None None (Some QuicErrServerClosed) None None = None
   \<and> serveH3_Run None None None (Some ErrServerClosed) None None = None
   \<and> serveH3_Run None None None (Some (Wrapped m (ErrOther x))) None None
       = Some (Wrapped m (ErrOther x))
   \<and> serveH3_Run None None None (Some QuicErrServerClosed) None (Some (ErrOther z))
       = Some (ErrOther z)
   \<and> serveH3_Run None None (Some (ErrOther x)) (Some (ErrOther y)) (Some (ErrOther z))
         (Some (ErrOther w))
       = Some (MultiError [ErrOther x, ErrOther y, ErrOther z, ErrOther w])"
proof -
  have n1: "serveErrorH1H2 se = (if errors_Is_opt se ErrServerClosed then None else se)"
    by (simp add: serveErrorH1H2_def)
  have n3: "serveErrorH3 se
      = (if errors_Is_opt se QuicErrServerClosed \<or> errors_Is_opt se ErrServerClosed
         then None else se)"
    by (simp add: serveErrorH3_def)
  have nil1: "(serveErrorH1H2 se = None) = (se = None \<or> errors_Is_opt se ErrServerClosed)"
    by (cases se) (simp_all add: serveErrorH1H2_def errors_Is_opt_def)
  have nil3: "(serveErrorH3 se = None)
      = (se = None \<or> errors_Is_opt se QuicErrServerClosed \<or> errors_Is_opt se ErrServerClosed)"
    by (cases se) (simp_all add: serveErrorH3_def errors_Is_opt_def)
  have e1: "Errors (serveErrorH1H2 se) = (if errors_Is_opt se ErrServerClosed then [] else Errors se)"
    by (simp add: n1 Errors_def)
  have e3: "Errors (serveErrorH3 se)
      = (if errors_Is_opt se QuicErrServerClosed \<or> errors_Is_opt se ErrServerClosed
         then [] else Errors se)"
    by (simp add: n3 Errors_def)
  have run1: "Errors (serveH1H2_Run None cb se cl)
      = Errors cb @ Errors (serveErrorH1H2 se) @ Errors cl"
    and run3: "Errors (serveH3_Run None None cb se cl pc)
      = Errors cb @ Errors (serveErrorH3 se) @ Errors cl @ Errors pc"
    and none1: "(serveH1H2_Run None cb se cl = None)
      = (cb = None \<and> serveErrorH1H2 se = None \<and> cl = None)"
    and none3: "(serveH3_Run None None cb se cl pc = None)
      = (cb = None \<and> serveErrorH3 se = None \<and> cl = None \<and> pc = None)"
    by (simp_all add: serveH1H2_Run_def serveH3_Run_def Errors_Combine Combine_None)
  have pins: "serveErrorH1H2 None = None"
    "serveErrorH1H2 (Some ErrServerClosed) = None"
    "serveErrorH1H2 (Some (Wrapped m ErrServerClosed)) = None"
    "serveErrorH1H2 (Some (Wrapped m (ErrOther x))) = Some (Wrapped m (ErrOther x))"
    "serveErrorH1H2 (Some (ErrOther m)) = Some (ErrOther m)"
    "serveErrorH1H2 (Some (ErrOther x)) = Some (ErrOther x)"
    "serveErrorH1H2 (Some (ErrOther y)) = Some (ErrOther y)"
    "serveErrorH1H2 (Some e) = (if errors_Is e ErrServerClosed then None else Some e)"
    "serveErrorH3 None = None"
    "serveErrorH3 (Some ErrServerClosed) = None"
    "serveErrorH3 (Some QuicErrServerClosed) = None"
    "serveErrorH3 (Some (Wrapped m QuicErrServerClosed)) = None"
    "serveErrorH3 (Some (Wrapped m (ErrOther x))) = Some (Wrapped m (ErrOther x))"
    "serveErrorH3 (Some (ErrOther m)) = Some (ErrOther m)"
    "serveErrorH3 (Some (ErrOther y)) = Some (ErrOther y)"
    "serveErrorH3 (Some e)
       = (if errors_Is e QuicErrServerClosed \<or> errors_Is e ErrServerClosed then None else Some e)"
    by (simp_all add: serveErrorH1H2_def serveErrorH3_def errors_Is_opt_def)
  have runs: "serveH1H2_Run None cb (Some ErrServerClosed) cl = serveH1H2_Run None cb None cl"
    "serveH3_Run None None cb (Some ErrServerClosed) cl pc = serveH3_Run None None cb None cl pc"
    "serveH3_Run None None cb (Some QuicErrServerClosed) cl pc
       = serveH3_Run None None cb None cl pc"
    "serveH1H2_Run None cb (Some (Wrapped m ErrServerClosed)) cl = serveH1H2_Run None cb None cl"
    "serveH1H2_Run None None None None = None"
    "serveH1H2_Run None None (Some ErrServerClosed) None = None"
    "serveH1H2_Run None None (Some (Wrapped m (ErrOther x))) None = Some (Wrapped m (ErrOther x))"
    "serveH1H2_Run None (Some (ErrOther x)) (Some ErrServerClosed) None = Some (ErrOther x)"
    "serveH1H2_Run None (Some (ErrOther x)) (Some ErrServerClosed) (Some (ErrOther z))
       = Some (MultiError [ErrOther x, ErrOther z])"
    "serveH1H2_Run None (Some (ErrOther x)) (Some (ErrOther y)) (Some (ErrOther z))
       = Some (MultiError [ErrOther x, ErrOther y, ErrOther z])"
    "serveH1H2_Run None (Some (MultiError [ErrOther x, ErrOther y])) None (Some (ErrOther z))
       = Some (MultiError [ErrOther x, ErrOther y, ErrOther z])"
    "serveH3_Run None None None None None None = None"
    "serveH3_Run None None None (Some QuicErrServerClosed) None None = None"
    "serveH3_Run None None None (Some ErrServerClosed) None None = None"
    "serveH3_Run None None None (Some (Wrapped m (ErrOther x))) None None
       = Some (Wrapped m (ErrOther x))"
    "serveH3_Run None None None (Some QuicErrServerClosed) None (Some (ErrOther z))
       = Some (ErrOther z)"
    "serveH3_Run None None (Some (ErrOther x)) (Some (ErrOther y)) (Some (ErrOther z))
         (Some (ErrOther w))
       = Some (MultiError [ErrOther x, ErrOther y, ErrOther z, ErrOther w])"
    by (simp_all add: serveH1H2_Run_def serveH3_Run_def pins Combine_def List.map_filter_simps)
  show ?thesis
    unfolding run1 run3 none1 none3 e1 e3 nil1 nil3
    by (intro conjI refl pins runs)
qed


subsection \<open>Handler panics\<close>

lemma exitOnPanicHandler_Returned:
  "(exitOnPanicHandler out = Returned)
     = (out = Returns \<or> out = Panics PanicNil \<or> out = Panics ErrAbortHandler)"
proof (cases out)
  case Returns
  then show ?thesis by (simp add: exitOnPanicHandler_def exitOnPanic_def recover_def)
next
  case (Panics v)
  then show ?thesis
    by (cases v) (simp_all add: exitOnPanicHandler_def exitOnPanic_def recover_def)
qed

lemma exitOnPanicHandler_fatal:
  "v \<noteq> PanicNil \<Longrightarrow> v \<noteq> ErrAbortHandler \<Longrightarrow>
     exitOnPanicHandler (Panics v)
       = Exited 2 [Text ''panic in http.Handler: '', Value v, Text ''\<newline>\<newline>'', Stack]"
  by (cases v) (simp_all add: exitOnPanicHandler_def exitOnPanic_def recover_def)

text \<open>
  C9, evaluated at a handler that calls \<^verbatim>\<open>panic(nil)\<close>: the panic value is not
  \<^verbatim>\<open>http.ErrAbortHandler\<close>, yet \<^verbatim>\<open>exitOnPanic\<close> takes the nil it gets from \<^verbatim>\<open>recover()\<close> for
  no panic and returns; nothing is printed and the process goes on. (Every other value
  except \<^verbatim>\<open>http.ErrAbortHandler\<close> is fatal, with exit status 2, the value and the stack on
  stderr, and \<^verbatim>\<open>http.ErrAbortHandler\<close> is not, as the two lemmas above say.)
\<close>

theorem C9_panic_nil_swallowed:
  "PanicNil \<noteq> ErrAbortHandler
   \<and> exitOnPanicHandler (Panics PanicNil) = Returned
   \<and> exitOnPanicHandler (Panics PanicNil) = exitOnPanicHandler Returns
   \<and> exitOnPanicHandler (Panics (PanicValue ''index out of range''))
       = Exited 2 [Text ''panic in http.Handler: '', Value (PanicValue ''index out of range''),
                   Text ''\<newline>\<newline>'', Stack]
   \<and> exitOnPanicHandler (Panics ErrAbortHandler) = Returned"
  by (simp add: exitOnPanicHandler_def exitOnPanic_def recover_def)

subsection \<open>TLS socket constructors\<close>

text \<open>
  C10. With a nil configuration both constructors fail with a nil pointer dereference and
  build no socket. With a configuration the caller owns (an allocated address) whose
  \<^verbatim>\<open>NextProtos\<close> is nil, both return a socket whose configuration is a fresh object, the
  caller's configuration with \<^verbatim>\<open>NextProtos\<close> set to h2, and every object allocated before,
  the caller's among them, is what it was.
\<close>

theorem C10_tls_constructors:
  "TLS s address None = Inl NilPointerDereference
   \<and> OptionalTLS s address None timeout = Inl NilPointerDereference
   \<and> (p < next_free s \<and> NextProtos (cells s p) = None \<longrightarrow>
        (case TLS s address (Some p) of
           Inl f \<Rightarrow> False
         | Inr (s', l) \<Rightarrow>
             TLSConfig l = next_free s
             \<and> cells s' (TLSConfig l) = (cells s p)\<lparr>NextProtos := Some [''h2'']\<rparr>
             \<and> cells s' p = cells s p
             \<and> (a < next_free s \<longrightarrow> cells s' a = cells s a))
        \<and> (case OptionalTLS s address (Some p) timeout of
           Inl f \<Rightarrow> False
         | Inr (s', l) \<Rightarrow>
             TLSConfig l = next_free s
             \<and> cells s' (TLSConfig l) = (cells s p)\<lparr>NextProtos := Some [''h2'']\<rparr>
             \<and> cells s' p = cells s p
             \<and> (a < next_free s \<longrightarrow> cells s' a = cells s a)))"
  by (simp add: TLS_def OptionalTLS_def defaultNextProtosH2_def Clone_def Let_def)

theorem C10_tls_constructors_witness:
  "(case TLS \<lparr>cells = (\<lambda>a. \<lparr>NextProtos = None, rest = ''cert''\<rparr>), next_free = 1\<rparr>
           ''127.0.0.1:443'' (Some 0) of
      Inl f \<Rightarrow> False
    | Inr (s', l) \<Rightarrow>
        TLSConfig l = 1
        \<and> cells s' 1 = \<lparr>NextProtos = Some [''h2''], rest = ''cert''\<rparr>
        \<and> cells s' 0 = \<lparr>NextProtos = None, rest = ''cert''\<rparr>)"
  using C10_tls_constructors
    [of "\<lparr>cells = (\<lambda>a. \<lparr>NextProtos = None, rest = ''cert''\<rparr>), next_free = 1\<rparr>"
        "''127.0.0.1:443''" 0 0 0]
  by (simp add: TLS_def defaultNextProtosH2_def Clone_def)

subsection \<open>Closing a listener more than once\<close>

lemma close_inv_init: "close_inv res (close_init n)"
  by (simp add: close_inv_def close_init_def)

lemma Ball_list_update:
  "\<forall>x \<in> set xs. P x \<Longrightarrow> P y \<Longrightarrow> \<forall>x \<in> set (xs[i := y]). P x"
  using set_update_subset_insert [of xs i y] by auto

lemma close_inv_thread: "close_inv res sys \<Longrightarrow> close_inv res (close_thread res i sys)"
proof (cases sys)
  case (Pair l pcs)
  assume inv: "close_inv res sys"
  show ?thesis
  proof (cases "i < length pcs")
    case False
    with inv Pair show ?thesis by (simp add: close_thread_def)
  next
    case True
    then have mem: "pcs ! i \<in> set pcs" by simp
    show ?thesis
    proof (cases "once l")
      case once: True
      let ?ok = "\<lambda>pc. case pc of Ret r \<Rightarrow> r = res 0 | _ \<Rightarrow> True"
      from inv Pair once have all: "\<forall>pc \<in> set pcs. ?ok pc" and l: "Listener l = 1" "err l = res 0"
        by (simp_all add: close_inv_def)
      from all mem have "?ok (pcs ! i)" by blast
      with l once have "?ok (snd (Close_step res l (pcs ! i)))"
        by (simp add: Close_step_def split: close_pc.splits)
      from Ball_list_update [where P = ?ok, OF all this]
      show ?thesis using Pair True once l
        by (simp add: close_thread_def close_inv_def Close_step_def split: close_pc.splits prod.splits)
    next
      case nonce: False
      with inv Pair have all: "\<forall>pc \<in> set pcs. pc = CallDo" and l: "Listener l = 0"
        by (simp_all add: close_inv_def)
      with mem have at: "pcs ! i = CallDo" by blast
      let ?ok = "\<lambda>pc. case pc of Ret r \<Rightarrow> r = res 0 | _ \<Rightarrow> True"
      from all have "\<forall>pc \<in> set pcs. ?ok pc" by auto
      from Ball_list_update [where P = ?ok and y = ReadErr, OF this]
      show ?thesis using Pair True nonce l at
        by (simp add: close_thread_def close_inv_def Close_step_def Listener_Close_def)
    qed
  qed
qed

lemma close_inv_run: "close_inv res sys \<Longrightarrow> close_inv res (close_run res sch sys)"
  by (induction sch arbitrary: sys) (simp_all add: close_inv_thread)

lemma length_close_thread: "length (snd (close_thread res j sys)) = length (snd sys)"
  by (cases sys) (simp add: close_thread_def split: prod.splits)

lemma length_close_run: "length (snd (close_run res sch sys)) = length (snd sys)"
  by (induction sch arbitrary: sys) (simp_all add: length_close_thread)

lemma rank_Close_step: "min 2 (Suc (rank_pc pc)) \<le> rank_pc (snd (Close_step res l pc))"
  by (cases pc) (simp_all add: Close_step_def Listener_Close_def)

lemma rank_close_thread:
  assumes "i < length (snd sys)"
  shows "min 2 (rank_pc (snd sys ! i) + (if i = j then 1 else 0))
       \<le> rank_pc (snd (close_thread res j sys) ! i)"
proof (cases sys)
  case (Pair l pcs)
  show ?thesis
  proof (cases "i = j")
    case True
    with assms Pair rank_Close_step [of "pcs ! i" res l] show ?thesis
      by (auto simp: close_thread_def split: prod.splits)
  next
    case False
    with assms Pair show ?thesis
      by (simp add: close_thread_def split: prod.splits)
  qed
qed

lemma rank_close_run:
  "i < length (snd sys) \<Longrightarrow>
     min 2 (rank_pc (snd sys ! i) + count_list sch i) \<le> rank_pc (snd (close_run res sch sys) ! i)"
proof (induction sch arbitrary: sys)
  case Nil
  then show ?case by simp
next
  case (Cons j sch)
  let ?sys = "close_thread res j sys"
  from Cons.prems have len: "i < length (snd ?sys)" by (simp add: length_close_thread)
  from Cons.IH [OF len] rank_close_thread [OF Cons.prems, of j res]
  show ?case by (auto split: if_splits)
qed

lemma close_returns:
  assumes "close_run res sch (close_init n) = (l, pcs)" "i < n" "2 \<le> count_list sch i"
  shows "\<exists>r. pcs ! i = Ret r"
proof -
  have "i < length (snd (close_init n))" using assms(2) by (simp add: close_init_def)
  from rank_close_run [OF this, of sch res] assms
  have "2 \<le> rank_pc (pcs ! i)" by simp
  then show ?thesis by (cases "pcs ! i") simp_all
qed


text \<open>
  C7. However \<open>n\<close> calls of \<^verbatim>\<open>Close\<close> interleave, the embedded listener's \<^verbatim>\<open>Close\<close> runs at
  most once, and once as soon as one call has returned; every call that has returned has
  returned the result of that one run; and a call that was scheduled for its two steps
  has returned.
\<close>

theorem C7_once_close:
  assumes "close_run res sch (close_init n) = (l, pcs)"
  shows "Listener l \<le> 1
    \<and> (\<forall>r. Ret r \<in> set pcs \<longrightarrow> Listener l = 1 \<and> r = res 0)
    \<and> (\<forall>i. i < n \<and> 2 \<le> count_list sch i \<longrightarrow> pcs ! i = Ret (res 0))"
proof -
  have "close_inv res (close_run res sch (close_init n))"
    by (rule close_inv_run [OF close_inv_init])
  with assms have inv: "close_inv res (l, pcs)" by simp
  have len: "length pcs = n"
    using length_close_run [of res sch "close_init n"] assms by (simp add: close_init_def)
  have safe: "Listener l \<le> 1 \<and> (\<forall>r. Ret r \<in> set pcs \<longrightarrow> Listener l = 1 \<and> r = res 0)"
  proof (cases "once l")
    case True
    with inv show ?thesis by (fastforce simp: close_inv_def)
  next
    case False
    with inv show ?thesis by (fastforce simp: close_inv_def)
  qed
  have "pcs ! i = Ret (res 0)" if "i < n" "2 \<le> count_list sch i" for i
  proof -
    from close_returns [OF assms that] obtain r where r: "pcs ! i = Ret r" by blast
    with that(1) len have "Ret r \<in> set pcs" by (metis nth_mem)
    with safe r show ?thesis by simp
  qed
  with safe show ?thesis by blast
qed

theorem C7_once_close_witness:
  "Listener (fst (close_run (\<lambda>k. if k = 0 then Some (ErrOther ''close failed'') else None)
       [0, 1, 1, 0, 2, 2] (close_init 3))) = 1
   \<and> snd (close_run (\<lambda>k. if k = 0 then Some (ErrOther ''close failed'') else None)
       [0, 1, 1, 0, 2, 2] (close_init 3)) ! 2 = Ret (Some (ErrOther ''close failed''))"
proof -
  define res :: "nat \<Rightarrow> error option"
    where "res = (\<lambda>k. if k = 0 then Some (ErrOther ''close failed'') else None)"
  define sch :: "nat list" where "sch = [0, 1, 1, 0, 2, 2]"
  define sys where "sys = close_run res sch (close_init 3)"
  have run: "close_run res sch (close_init 3) = (fst sys, snd sys)"
    by (simp add: sys_def)
  have len: "length (snd sys) = 3"
    unfolding sys_def length_close_run by (simp add: close_init_def)
  have cnt: "(2::nat) < 3 \<and> 2 \<le> count_list sch 2"
    by (simp add: sch_def)
  from C7_once_close [OF run] cnt
  have at: "snd sys ! 2 = Ret (res 0)"
    and all: "\<forall>r. Ret r \<in> set (snd sys) \<longrightarrow> Listener (fst sys) = 1 \<and> r = res 0"
    by blast+
  from len have "snd sys ! 2 \<in> set (snd sys)"
    by (intro nth_mem) simp
  with all at have "Listener (fst sys) = 1 \<and> snd sys ! 2 = Ret (res 0)"
    by metis
  then show ?thesis
    unfolding sys_def sch_def res_def by simp
qed

subsection \<open>Sniffing\<close>

lemma take_then_drop: "d = take m xs \<Longrightarrow> d @ drop (length d) xs = xs"
  by (auto simp: min_def)

lemma unread_Peek1: "unread (snd (Peek1 k bc)) = unread bc"
proof (cases "br bc")
  case Nil
  show ?thesis
  proof (cases "take (min k minReadBufferSize) (Conn bc)")
    case empty: Nil
    show ?thesis unfolding Peek1_def Nil empty by simp
  next
    case (Cons b bs)
    show ?thesis unfolding Peek1_def Nil Cons
      using take_then_drop [OF Cons [symmetric]] by (simp add: unread_def Nil)
  qed
next
  case (Cons b bs)
  then show ?thesis by (simp add: Peek1_def)
qed

lemma unread_Read: "fst (Read n k bc) @ unread (snd (Read n k bc)) = unread bc"
proof -
  have direct: "take (min k n) (Conn bc) @ drop (length (take (min k n) (Conn bc))) (Conn bc) = Conn bc"
    by (rule take_then_drop) simp
  let ?d = "take (min k minReadBufferSize) (Conn bc)"
  have "?d @ drop (length ?d) (Conn bc) = Conn bc"
    by (rule take_then_drop) simp
  then have "take n ?d @ drop n ?d @ drop (length ?d) (Conn bc) = Conn bc"
    by (simp only: append_assoc [symmetric] append_take_drop_id)
  with direct show ?thesis
    by (simp add: Read_def unread_def Let_def)
qed

lemma unread_Reads: "fst (Reads rs bc) @ unread (snd (Reads rs bc)) = unread bc"
proof (induction rs arbitrary: bc)
  case Nil
  show ?case by simp
next
  case (Cons r rs)
  obtain n k where r: "r = (n, k)" by (cases r)
  obtain d bc' where rd: "Read n k bc = (d, bc')" by (cases "Read n k bc")
  obtain ds bc'' where rds: "Reads rs bc' = (ds, bc'')" by (cases "Reads rs bc'")
  from Cons.IH [of bc'] rds have "ds @ unread bc'' = unread bc'" by simp
  moreover from unread_Read [of n k bc] rd have "d @ unread bc' = unread bc" by simp
  ultimately show ?case by (simp add: r rd rds)
qed

lemma unread_sniff: "unread (shim (sniff cfg k c)) = c"
proof -
  obtain buf bc where pk: "Peek1 k \<lparr>Conn = c, br = []\<rparr> = (buf, bc)"
    by (cases "Peek1 k \<lparr>Conn = c, br = []\<rparr>")
  from unread_Peek1 [of k "\<lparr>Conn = c, br = []\<rparr>"] pk have "unread bc = c"
    by (simp add: unread_def)
  with pk show ?thesis
    by (simp add: sniff_def split: option.splits)
qed

lemma is_TLS_sniff:
  "is_TLS (sniff cfg k c) = (0 < k \<and> (\<exists>cs. c = 22 # cs))"
proof (cases c)
  case Nil
  then show ?thesis by (simp add: sniff_def Peek1_def)
next
  case (Cons b bs)
  show ?thesis
  proof (cases k)
    case 0
    with Cons show ?thesis by (simp add: sniff_def Peek1_def)
  next
    case (Suc j)
    with Cons show ?thesis
      by (simp add: sniff_def Peek1_def recordTypeHandshake_def minReadBufferSize_def)
  qed
qed

lemma Read_progress:
  "0 < n \<Longrightarrow> 0 < k \<Longrightarrow> unread bc \<noteq> [] \<Longrightarrow> fst (Read n k bc) \<noteq> []"
  by (auto simp: Read_def unread_def Let_def minReadBufferSize_def)

text \<open>
  C2, as the claim states it, at a connection whose first read times out: the claim
  promises a TLS session, the acceptor returns the bare buffering shim.
\<close>

theorem C2_peek_failure_counterexample:
  "\<not> is_TLS (sniff () 0 [22, 3, 1])"
  by (simp add: sniff_def Peek1_def)

text \<open>
  C2, amended. The returned connection is a TLS session exactly when the peek obtained a
  byte and that byte is 22; when the peek failed or timed out, or the byte is another one,
  it is the buffering shim alone. In every case the shim still has all bytes of the client
  to be read, the peeked one first, and any sequence of reads returns them in order.
\<close>

theorem C2_sniff_amended:
  "is_TLS (sniff cfg arrived c) = (0 < arrived \<and> (\<exists>cs. c = 22 # cs))
   \<and> sniff cfg arrived c
       = (if 0 < arrived \<and> (\<exists>cs. c = 22 # cs) then TLSServer (shim (sniff cfg arrived c)) cfg
          else Buffered (shim (sniff cfg arrived c)))
   \<and> unread (shim (sniff cfg arrived c)) = c
   \<and> fst (Reads rs (shim (sniff cfg arrived c)))
        @ unread (snd (Reads rs (shim (sniff cfg arrived c)))) = c"
proof -
  have tls: "is_TLS (sniff cfg arrived c) = (0 < arrived \<and> (\<exists>cs. c = 22 # cs))"
    by (rule is_TLS_sniff)
  have "sniff cfg arrived c
       = (if is_TLS (sniff cfg arrived c) then TLSServer (shim (sniff cfg arrived c)) cfg
          else Buffered (shim (sniff cfg arrived c)))"
    by (simp add: sniff_def split: prod.splits option.splits)
  then have "sniff cfg arrived c
       = (if 0 < arrived \<and> (\<exists>cs. c = 22 # cs) then TLSServer (shim (sniff cfg arrived c)) cfg
          else Buffered (shim (sniff cfg arrived c)))"
    by (simp only: tls)
  with tls unread_sniff [of cfg arrived c] unread_Reads [of rs "shim (sniff cfg arrived c)"]
  show ?thesis by (simp only: simp_thms)
qed

subsection \<open>The prior-knowledge preface\<close>

lemma short_not_expected:
  "\<not> length expectedBody \<le> length p \<Longrightarrow> take (length expectedBody) p \<noteq> expectedBody"
proof
  assume short: "\<not> length expectedBody \<le> length p"
    and eq: "take (length expectedBody) p = expectedBody"
  from eq have "length (take (length expectedBody) p) = length expectedBody" by simp
  with short show False by simp
qed

lemma init_Hijacks:
  "initH2CWithPriorKnowledge h c (Hijacks rw) =
     (if take (length expectedBody) (pending rw) = expectedBody
      then \<lparr>handler = removeConn c (addPending c h), conn_closed = False,
            returned = Inr \<lparr>Reader = ClientPreface @ drop (length expectedBody) (pending rw),
                            Reader_ending = ending rw\<rparr>\<rparr>
      else \<lparr>handler = addPending c h, conn_closed = True,
            returned = returned (initH2CWithPriorKnowledge h c (Hijacks rw))\<rparr>)"
  using short_not_expected [of "pending rw"]
  by (simp add: initH2CWithPriorKnowledge_def io_ReadFull_def Let_def)

lemma init_Hijacks_error:
  "take (length expectedBody) (pending rw) \<noteq> expectedBody \<Longrightarrow>
     \<exists>e. returned (initH2CWithPriorKnowledge h c (Hijacks rw)) = Inl e"
  by (simp add: initH2CWithPriorKnowledge_def io_ReadFull_def Let_def)

text \<open>
  C4. After a successful hijack, the connection reaches the HTTP/2 engine's \<^verbatim>\<open>ServeConn\<close>
  exactly when the next six bytes are the tail of the client preface, and then its reads
  yield the whole client preface followed by the bytes after the tail. Otherwise (a read
  error, too few bytes, other bytes) the raw connection is closed, \<^verbatim>\<open>ServeConn\<close> is not
  called and the handler panics with \<^verbatim>\<open>http.ErrAbortHandler\<close>.
\<close>

theorem C4_prior_knowledge_preface:
  "ServeConn (serveH2CWithPriorKnowledge h c (Hijacks rw) notified)
     = (if take (length expectedBody) (pending rw) = expectedBody
        then Some \<lparr>Reader = ClientPreface @ drop (length expectedBody) (pending rw),
                   Reader_ending = ending rw\<rparr>
        else None)
   \<and> ended (serveH2CWithPriorKnowledge h c (Hijacks rw) notified)
     = (if take (length expectedBody) (pending rw) = expectedBody
        then Returns else Panics ErrAbortHandler)
   \<and> raw_closed (serveH2CWithPriorKnowledge h c (Hijacks rw) notified)
     = (take (length expectedBody) (pending rw) \<noteq> expectedBody)"
proof (cases "take (length expectedBody) (pending rw) = expectedBody")
  case True
  then show ?thesis
    by (simp add: serveH2CWithPriorKnowledge_def init_Hijacks Let_def)
next
  case False
  from init_Hijacks_error [OF this, of h c] obtain e
    where "returned (initH2CWithPriorKnowledge h c (Hijacks rw)) = Inl e" ..
  with False show ?thesis
    using init_Hijacks [of h c rw]
    by (simp add: serveH2CWithPriorKnowledge_def Let_def)
qed


subsection \<open>Counting connections\<close>

text \<open>
  Over the life of a connection \<^verbatim>\<open>connTrack\<close> adds one and takes one away. For a
  registered h2c placeholder, notification and removal together take one away from the
  track counter as soon as either happens, and never more; the removal takes one away
  from the serve counter.
\<close>

lemma connTrack_between:
  "set mid \<subseteq> {StateActive, StateIdle} \<Longrightarrow> fold connTrack mid n = n"
  by (induction mid arbitrary: n) (auto simp: connTrack_def)

lemma connTrack_lifecycle:
  assumes "set mid \<subseteq> {StateActive, StateIdle}" "fin \<in> {StateHijacked, StateClosed}"
  shows "fold connTrack (StateNew # mid) n = n + 1
    \<and> fold connTrack (StateNew # mid @ [fin]) n = n"
  using assms connTrack_between [OF assms(1)] by (auto simp: connTrack_def)

lemma h2c_events_removed:
  "conns h c = None \<Longrightarrow> h2c_events c es h = h"
  by (induction c es h rule: h2c_events.induct) (simp_all add: setTracked_def removeConn_def)

lemma h2c_events_tracked:
  "conns h c = Some True \<Longrightarrow>
     trackWG (h2c_events c es h) = trackWG h
     \<and> serveWG (h2c_events c es h) = serveWG h - (if Removed \<in> set es then 1 else 0)"
proof (induction c es h rule: h2c_events.induct)
  case (1 c h)
  show ?case by simp
next
  case (2 c es h)
  then show ?case by (simp add: setTracked_def)
next
  case (3 c es h)
  have "conns (removeConn c h) c = None" using 3(2) by (simp add: removeConn_def)
  from h2c_events_removed [OF this] 3(2) show ?case by (simp add: removeConn_def)
qed

lemma h2c_events_pending:
  "conns h c = Some False \<Longrightarrow>
     trackWG (h2c_events c es h) = trackWG h - (if es = [] then 0 else 1)
     \<and> serveWG (h2c_events c es h) = serveWG h - (if Removed \<in> set es then 1 else 0)"
proof (cases es)
  case Nil
  then show ?thesis by simp
next
  case (Cons e es')
  assume p: "conns h c = Some False"
  show ?thesis
  proof (cases e)
    case Tracked
    have "conns (setTracked c h) c = Some True" using p by (simp add: setTracked_def)
    from h2c_events_tracked [OF this, of es'] p Cons Tracked show ?thesis
      by (simp add: setTracked_def)
  next
    case Removed
    have "conns (removeConn c h) c = None" using p by (simp add: removeConn_def)
    from h2c_events_removed [OF this, of es'] p Cons Removed show ?thesis
      by (simp add: removeConn_def)
  qed
qed

lemma h2c_counters_once:
  "trackWG (h2c_events c es (addPending c h)) = trackWG h + (if es = [] then 1 else 0)
   \<and> serveWG (h2c_events c es (addPending c h)) = serveWG h + (if Removed \<in> set es then 0 else 1)"
  using h2c_events_pending [of "addPending c h" c es] by (simp add: addPending_def)

lemma init_failed_keeps_pending:
  "take (length expectedBody) (pending rw) \<noteq> expectedBody \<Longrightarrow>
     handler_after (serveH2CWithPriorKnowledge h c (Hijacks rw) notified) = addPending c h"
  using init_Hijacks [of h c rw] init_Hijacks_error [of rw h c]
  by (auto simp: serveH2CWithPriorKnowledge_def Let_def)

text \<open>
  C6, evaluated at a failed upgrade: the request passed detection, the hijack succeeded and
  the bytes after it are not the preface tail. The placeholder registered by \<^verbatim>\<open>addPending\<close>
  is still in the set when the handler has panicked, and both counters still count it:
  nothing was taken away from the track counter, where the comment in h2c.go has the
  handler decrement both counters on error.
\<close>

theorem C6_failed_upgrade_stays_pending:
  "handler_after (serveH2CWithPriorKnowledge \<lparr>conns = Map.empty, trackWG = 0, serveWG = 0\<rparr> 0
      (Hijacks \<lparr>pending = ''GET / HTTP/1.1'', ending = EOF\<rparr>) False)
     = \<lparr>conns = [0 \<mapsto> False], trackWG = 1, serveWG = 1\<rparr>
   \<and> ended (serveH2CWithPriorKnowledge \<lparr>conns = Map.empty, trackWG = 0, serveWG = 0\<rparr> 0
      (Hijacks \<lparr>pending = ''GET / HTTP/1.1'', ending = EOF\<rparr>) False)
     = Panics ErrAbortHandler"
  by (simp add: serveH2CWithPriorKnowledge_def initH2CWithPriorKnowledge_def io_ReadFull_def
      expectedBody_def Let_def addPending_def CR_def LF_def)

subsection \<open>Stopping the handler\<close>

lemma cnt_update:
  "i < length ts \<Longrightarrow>
     cnt P (ts[i := t']) = cnt P ts - (if P (ts ! i) then 1 else 0) + (if P t' then 1 else 0)"
proof (induction ts arbitrary: i)
  case Nil
  then show ?case by simp
next
  case (Cons t ts)
  show ?case
  proof (cases i)
    case 0
    then show ?thesis by (simp add: cnt_def)
  next
    case (Suc j)
    with Cons.prems have "j < length ts" by simp
    from Cons.IH [OF this] Suc show ?thesis by (auto simp: cnt_def split: if_splits)
  qed
qed

lemma cnt_append: "cnt P (ts @ [t]) = cnt P ts + (if P t then 1 else 0)"
  by (simp add: cnt_def)

lemma cnt_nonneg: "0 \<le> cnt P ts"
  by (simp add: cnt_def)

lemma cnt_pos: "i < length ts \<Longrightarrow> P (ts ! i) \<Longrightarrow> 1 \<le> cnt P ts"
proof -
  assume "i < length ts" "P (ts ! i)"
  then have "ts ! i \<in> set (filter P ts)" by simp
  then have "filter P ts \<noteq> []" by (metis empty_iff list.set(1))
  then show ?thesis by (cases "filter P ts") (simp_all add: cnt_def)
qed

lemma cnt_unique:
  "cnt P ts \<le> 1 \<Longrightarrow> i < length ts \<Longrightarrow> P (ts ! i) \<Longrightarrow> j < length ts \<Longrightarrow> P (ts ! j) \<Longrightarrow> i = j"
proof (induction ts arbitrary: i j)
  case Nil
  then show ?case by simp
next
  case (Cons t ts)
  have tail: "cnt P (t # ts) = cnt P ts + (if P t then 1 else 0)"
    by (simp add: cnt_def)
  show ?case
  proof (cases i)
    case i0: 0
    show ?thesis
    proof (cases j)
      case 0
      with i0 show ?thesis by simp
    next
      case (Suc j')
      with Cons.prems have "1 \<le> cnt P ts" by (intro cnt_pos [of j']) simp_all
      with Cons.prems i0 tail show ?thesis by simp
    qed
  next
    case (Suc i')
    show ?thesis
    proof (cases j)
      case 0
      from Suc Cons.prems have "1 \<le> cnt P ts" by (intro cnt_pos [of i']) simp_all
      with Cons.prems 0 tail show ?thesis by simp
    next
      case j: (Suc j')
      from tail Cons.prems(1) have "cnt P ts \<le> 1" by (simp split: if_splits)
      from Cons.IH [OF this, of i' j'] Cons.prems Suc j show ?thesis by simp
    qed
  qed
qed

lemmas step_defs = thread_step_def serve_step_def stop_step_def run_step_def

lemmas run_defs = exec_def step_defs

lemmas step_splits = thread.splits serve_pc.splits stop_pc.splits run_pc.splits choice.splits
  option.splits if_splits prod.splits

lemma step_wg:
  "thread_step ch t s = Some (t', s') \<Longrightarrow>
     wg s' = wg s - (if in_flight t then 1 else 0) + (if in_flight t' then 1 else 0)"
  by (auto simp: step_defs split: step_splits)

lemma step_mu:
  "thread_step ch t s = Some (t', s') \<Longrightarrow> (holds_mu t \<longrightarrow> mu s) \<Longrightarrow>
     (if mu s' then 1 else 0)
       = (if mu s then (1::int) else 0) - (if holds_mu t then 1 else 0) + (if holds_mu t' then 1 else 0)"
  by (auto simp: step_defs split: step_splits)

lemma step_kind:
  "thread_step ch t s = Some (t', s') \<Longrightarrow> is_Runner t' = is_Runner t \<and> is_Serve t' = is_Serve t"
  by (auto simp: step_defs split: step_splits)

lemma step_mono:
  "thread_step ch t s = Some (t', s') \<Longrightarrow>
     (stopped s \<longrightarrow> stopped s') \<and> (serving s \<longrightarrow> serving s') \<and> threads s' = threads s"
  by (auto simp: step_defs split: step_splits)

lemma step_local_self:
  "thread_step ch t s = Some (t', s') \<Longrightarrow> local_ok s t \<Longrightarrow>
     (Stop_returned t \<longrightarrow> stopped s \<and> wg s = 0) \<Longrightarrow> local_ok s' t'"
  by (auto simp: step_defs split: step_splits)

lemma step_local_other:
  "thread_step ch t s = Some (t', s') \<Longrightarrow> local_ok s u \<Longrightarrow> local_ok s t \<Longrightarrow>
     \<not> (holds_mu t \<and> holds_mu u) \<Longrightarrow> \<not> (is_Runner t \<and> is_Runner u) \<Longrightarrow>
     (in_flight t \<longrightarrow> 1 \<le> wg s) \<Longrightarrow> local_ok s' u"
  by (cases "(s, u)" rule: local_ok.cases) (auto simp: step_defs split: step_splits)

lemma step_Stop_returned:
  "thread_step ch t s = Some (t', s') \<Longrightarrow> local_ok s t \<Longrightarrow> Stop_returned t' \<Longrightarrow>
     stopped s' \<and> wg s' = 0"
  by (auto simp: step_defs split: step_splits)

lemma step_quiet:
  "thread_step ch t s = Some (t', s') \<Longrightarrow> stopped s \<Longrightarrow> wg s = 0 \<Longrightarrow> local_ok s t \<Longrightarrow>
     (in_flight t \<longrightarrow> 1 \<le> wg s) \<Longrightarrow>
     stopped s' \<and> wg s' = 0 \<and> invocations s' = invocations s \<and> t' \<noteq> Serve S_Handler"
  by (auto simp: step_defs split: step_splits)

lemma local_ok_threads: "local_ok (s\<lparr>threads := ts\<rparr>) t = local_ok s t"
  by (cases "(s, t)" rule: local_ok.cases) simp_all

lemma no_in_flight:
  assumes "cnt in_flight ts = 0" shows "Serve S_Handler \<notin> set ts"
proof
  assume "Serve S_Handler \<in> set ts"
  then obtain i where "i < length ts" "ts ! i = Serve S_Handler"
    by (auto simp: in_set_conv_nth)
  then have "1 \<le> cnt in_flight ts" by (intro cnt_pos [of i]) simp_all
  with assms show False by simp
qed

lemma gate_inv_spawn:
  assumes inv: "gate_inv s"
    and new: "local_ok s t" "\<not> in_flight t" "\<not> holds_mu t" "\<not> Stop_returned t" "\<not> is_Runner t"
      "is_Serve t \<longrightarrow> serving s"
  shows "gate_inv (s\<lparr>threads := threads s @ [t]\<rparr>)"
proof -
  have "list_all (local_ok (s\<lparr>threads := threads s @ [t]\<rparr>)) (threads s @ [t])"
    using inv new(1) by (simp add: gate_inv_def local_ok_threads [abs_def])
  with inv new show ?thesis
    by (auto simp: gate_inv_def cnt_append)
qed

lemma gate_inv_step:
  assumes inv: "gate_inv s"
    and i: "i < length (threads s)"
    and step: "thread_step ch (threads s ! i) s = Some (t', s1)"
  shows "gate_inv (s1\<lparr>threads := (threads s)[i := t']\<rparr>)"
proof -
  let ?ts = "threads s" and ?t = "threads s ! i"
  let ?s' = "s1\<lparr>threads := (threads s)[i := t']\<rparr>"
  from inv have wg: "wg s = cnt in_flight ?ts"
    and mu: "cnt holds_mu ?ts = (if mu s then 1 else 0)"
    and ok: "list_all (local_ok s) ?ts"
    and ret: "list_ex Stop_returned ?ts \<longrightarrow> stopped s \<and> wg s = 0"
    and one: "cnt is_Runner ?ts \<le> 1"
    and srv: "\<not> serving s \<longrightarrow> \<not> list_ex is_Serve ?ts"
    unfolding gate_inv_def by blast+
  from ok i have ok_t: "local_ok s ?t" by (simp add: list_all_length)
  have fl_t: "in_flight ?t \<longrightarrow> 1 \<le> wg s"
    using cnt_pos [of i ?ts in_flight] i wg by simp
  have mu_t: "holds_mu ?t \<longrightarrow> mu s"
  proof
    assume "holds_mu ?t"
    with cnt_pos [of i ?ts holds_mu] i have "1 \<le> cnt holds_mu ?ts" by simp
    with mu show "mu s" by (simp split: if_splits)
  qed
  have ret_t: "Stop_returned ?t \<longrightarrow> stopped s \<and> wg s = 0"
    using ret i by (auto simp: list_ex_length)
  have mu_le: "cnt holds_mu ?ts \<le> 1" using mu by (simp split: if_splits)
  \<comment> \<open>the counters\<close>
  have 1: "wg ?s' = cnt in_flight (threads ?s')"
    using step_wg [OF step] wg cnt_update [OF i, of in_flight t'] by simp
  have 2: "cnt holds_mu (threads ?s') = (if mu ?s' then 1 else 0)"
    using step_mu [OF step mu_t] mu cnt_update [OF i, of holds_mu t'] by simp
  have 5: "cnt is_Runner (threads ?s') \<le> 1"
    using step_kind [OF step] one cnt_update [OF i, of is_Runner t'] by simp
  \<comment> \<open>every thread's view of the shared fields\<close>
  have 3: "list_all (local_ok ?s') (threads ?s')"
    unfolding list_all_length
  proof (intro allI impI)
    fix j assume "j < length (threads ?s')"
    then have j: "j < length ?ts" by simp
    show "local_ok ?s' (threads ?s' ! j)"
    proof (cases "j = i")
      case True
      with i step_local_self [OF step ok_t ret_t] show ?thesis
        by (simp add: local_ok_threads)
    next
      case False
      from ok j have ok_j: "local_ok s (?ts ! j)" by (simp add: list_all_length)
      have a: "\<not> (holds_mu ?t \<and> holds_mu (?ts ! j))"
        using cnt_unique [OF mu_le i _ j] False by blast
      have b: "\<not> (is_Runner ?t \<and> is_Runner (?ts ! j))"
        using cnt_unique [OF one i _ j] False by blast
      from step_local_other [OF step ok_j ok_t a b fl_t] False show ?thesis
        by (simp add: local_ok_threads)
    qed
  qed
  \<comment> \<open>a returned Stop\<close>
  have 4: "list_ex Stop_returned (threads ?s') \<longrightarrow> stopped ?s' \<and> wg ?s' = 0"
  proof
    assume "list_ex Stop_returned (threads ?s')"
    then obtain j where j: "j < length ?ts" and r: "Stop_returned (?ts[i := t'] ! j)"
      by (auto simp: list_ex_length)
    show "stopped ?s' \<and> wg ?s' = 0"
    proof (cases "j = i")
      case True
      with r i have "Stop_returned t'" by simp
      from step_Stop_returned [OF step ok_t this] show ?thesis by simp
    next
      case False
      with r j have "list_ex Stop_returned ?ts" by (auto simp: list_ex_length)
      with ret have "stopped s" "wg s = 0" by simp_all
      from step_quiet [OF step this ok_t fl_t] show ?thesis by simp
    qed
  qed
  \<comment> \<open>no call before the engines serve\<close>
  have 6: "\<not> serving ?s' \<longrightarrow> \<not> list_ex is_Serve (threads ?s')"
  proof (intro impI notI)
    assume ns: "\<not> serving ?s'" and "list_ex is_Serve (threads ?s')"
    then obtain j where j: "j < length ?ts" and r: "is_Serve (?ts[i := t'] ! j)"
      by (auto simp: list_ex_length)
    from ns step_mono [OF step] have "\<not> serving s" by auto
    with srv have none: "\<not> list_ex is_Serve ?ts" by simp
    with i have "\<not> is_Serve ?t" by (auto simp: list_ex_length)
    with step_kind [OF step] have "\<not> is_Serve t'" by simp
    with r j i none show False
      by (cases "j = i") (auto simp: list_ex_length)
  qed
  from 1 2 3 4 5 6 show ?thesis
    unfolding gate_inv_def by blast
qed

lemma gate_inv_exec:
  assumes "gate_inv s" "exec a s = Some s'"
  shows "gate_inv s'"
proof (cases a)
  case Call_ServeHTTP
  with assms(2) have "serving s" "s' = s\<lparr>threads := threads s @ [Serve S_Lock]\<rparr>"
    by (auto simp: exec_def split: if_splits)
  with gate_inv_spawn [OF assms(1), of "Serve S_Lock"] show ?thesis by simp
next
  case Call_Stop
  with assms(2) have "s' = s\<lparr>threads := threads s @ [Stopper T_Lock]\<rparr>"
    by (auto simp: exec_def)
  with gate_inv_spawn [OF assms(1), of "Stopper T_Lock"] show ?thesis by simp
next
  case (Step i ch)
  with assms(2) obtain t' s1 where "i < length (threads s)"
    "thread_step ch (threads s ! i) s = Some (t', s1)" "s' = s1\<lparr>threads := (threads s)[i := t']\<rparr>"
    by (auto simp: exec_def split: if_splits option.splits)
  with gate_inv_step [OF assms(1)] show ?thesis by simp
qed

lemma gate_inv_run: "gate_inv s \<Longrightarrow> run as s = Some s' \<Longrightarrow> gate_inv s'"
proof (induction as arbitrary: s)
  case Nil
  then show ?case by simp
next
  case (Cons a as)
  then show ?case by (auto split: option.splits dest: gate_inv_exec)
qed

lemma gate_inv_newAbortableHandler: "gate_inv newAbortableHandler"
  by (simp add: gate_inv_def newAbortableHandler_def cnt_def)

lemma gate_inv_Server_Run: "gate_inv Server_Run"
  by (simp add: gate_inv_def Server_Run_def cnt_def)

lemma step_aborting:
  "thread_step ch t s = Some (t', s') \<Longrightarrow> aborting t \<Longrightarrow>
     aborting t' \<and> invocations s' = invocations s"
  by (cases t rule: aborting.cases) (auto simp: step_defs split: step_splits)

lemma aborting_enabled:
  "aborting t \<Longrightarrow> t \<noteq> Serve (S_End (Panics ErrAbortHandler)) \<Longrightarrow>
     thread_step ch t s \<noteq> None"
  by (cases t rule: aborting.cases) (auto simp: step_defs split: step_splits)

lemma exec_aborting:
  assumes "exec a s = Some s'" "i < length (threads s)" "aborting (threads s ! i)"
  shows "i < length (threads s') \<and> aborting (threads s' ! i)"
proof (cases a)
  case Call_ServeHTTP
  with assms show ?thesis by (auto simp: exec_def nth_append split: if_splits)
next
  case Call_Stop
  with assms show ?thesis by (auto simp: exec_def nth_append)
next
  case (Step j ch)
  with assms(1) obtain t' s1 where j: "j < length (threads s)"
    and step: "thread_step ch (threads s ! j) s = Some (t', s1)"
    and s': "s' = s1\<lparr>threads := (threads s)[j := t']\<rparr>"
    by (auto simp: exec_def split: if_splits option.splits)
  show ?thesis
  proof (cases "j = i")
    case True
    with step_aborting [OF step] assms s' show ?thesis by simp
  next
    case False
    with assms s' show ?thesis by simp
  qed
qed

lemma run_aborting:
  "run as s = Some s' \<Longrightarrow> i < length (threads s) \<Longrightarrow> aborting (threads s ! i) \<Longrightarrow>
     i < length (threads s') \<and> aborting (threads s' ! i)"
proof (induction as arbitrary: s)
  case Nil
  then show ?case by simp
next
  case (Cons a as)
  from Cons.prems(1) obtain s1 where a: "exec a s = Some s1" and r: "run as s1 = Some s'"
    by (auto split: option.splits)
  from exec_aborting [OF a Cons.prems(2,3)] Cons.IH [OF r] show ?case by simp
qed

lemma step_other_fields:
  "thread_step ch t s = Some (t', s') \<Longrightarrow>
     (\<not> is_Runner t \<longrightarrow> serving s' = serving s) \<and> (\<not> is_Serve t \<longrightarrow> invocations s' = invocations s)"
  by (auto simp: step_defs split: step_splits)

lemma R_End_final: "thread_step ch (Runner R_End) s = None"
  by (simp add: step_defs)

lemma quiet_no_handler:
  assumes "gate_inv s" "quiet s"
  shows "Serve S_Handler \<notin> set (threads s)"
proof (cases "stopped s \<and> wg s = 0")
  case True
  with assms(1) have "cnt in_flight (threads s) = 0" by (simp add: gate_inv_def)
  then show ?thesis by (rule no_in_flight)
next
  case False
  with assms have "\<not> list_ex is_Serve (threads s)" by (auto simp: gate_inv_def quiet_def)
  then show ?thesis by (auto simp: list_ex_iff)
qed

lemma quiet_exec:
  assumes inv: "gate_inv s" and q: "quiet s" and ex: "exec a s = Some s'"
  shows "quiet s' \<and> invocations s' = invocations s"
proof (cases a)
  case Call_ServeHTTP
  with ex q show ?thesis by (auto simp: exec_def quiet_def split: if_splits)
next
  case Call_Stop
  with ex q show ?thesis by (auto simp: exec_def quiet_def)
next
  case (Step i ch)
  let ?ts = "threads s"
  from Step ex obtain t' s1 where i: "i < length ?ts"
    and step: "thread_step ch (?ts ! i) s = Some (t', s1)"
    and s': "s' = s1\<lparr>threads := ?ts[i := t']\<rparr>"
    by (auto simp: exec_def split: if_splits option.splits)
  from inv have wg: "wg s = cnt in_flight ?ts" and ok: "list_all (local_ok s) ?ts"
    and one: "cnt is_Runner ?ts \<le> 1" and srv: "\<not> serving s \<longrightarrow> \<not> list_ex is_Serve ?ts"
    unfolding gate_inv_def by blast+
  from ok i have ok_t: "local_ok s (?ts ! i)" by (simp add: list_all_length)
  have fl_t: "in_flight (?ts ! i) \<longrightarrow> 1 \<le> wg s"
    using cnt_pos [of i ?ts in_flight] i wg by simp
  show ?thesis
  proof (cases "stopped s \<and> wg s = 0")
    case True
    then have "stopped s" "wg s = 0" by simp_all
    from step_quiet [OF step this ok_t fl_t] s' show ?thesis by (simp add: quiet_def)
  next
    case False
    with q have ns: "\<not> serving s" and "Runner R_End \<in> set ?ts" by (auto simp: quiet_def)
    then obtain j where j: "j < length ?ts" and at: "?ts ! j = Runner R_End"
      by (auto simp: in_set_conv_nth)
    from step at R_End_final have ne: "j \<noteq> i" by auto
    have "\<not> is_Runner (?ts ! i)"
      using cnt_unique [OF one i _ j] at ne by auto
    moreover from ns srv i have "\<not> is_Serve (?ts ! i)" by (auto simp: list_ex_length)
    ultimately have "serving s1 = serving s" "invocations s1 = invocations s"
      using step_other_fields [OF step] by simp_all
    moreover from j ne at have "Runner R_End \<in> set (?ts[i := t'])"
      by (metis length_list_update nth_list_update_neq nth_mem)
    ultimately show ?thesis using ns s' by (simp add: quiet_def)
  qed
qed

lemma quiet_run:
  "gate_inv s \<Longrightarrow> quiet s \<Longrightarrow> run bs s = Some s' \<Longrightarrow>
     gate_inv s' \<and> quiet s' \<and> invocations s' = invocations s"
proof (induction bs arbitrary: s)
  case Nil
  then show ?case by simp
next
  case (Cons a bs)
  from Cons.prems(3) obtain s1 where a: "exec a s = Some s1" and r: "run bs s1 = Some s'"
    by (auto split: option.splits)
  from quiet_exec [OF Cons.prems(1,2) a] gate_inv_exec [OF Cons.prems(1) a]
  have "gate_inv s1" "quiet s1" "invocations s1 = invocations s" by simp_all
  with Cons.IH [OF _ _ r] show ?case by simp
qed

lemma quiet_forever:
  assumes "gate_inv s" "quiet s"
  shows "Serve S_Handler \<notin> set (threads s)
    \<and> (\<forall>bs s'. run bs s = Some s' \<longrightarrow>
          invocations s' = invocations s \<and> Serve S_Handler \<notin> set (threads s'))"
  using quiet_no_handler [OF assms] quiet_run [OF assms] quiet_no_handler by blast

lemma exec_aborting_enabled:
  assumes "i < length (threads s)" "aborting (threads s ! i)"
    "threads s ! i \<noteq> Serve (S_End (Panics ErrAbortHandler))"
  shows "exec (Step i Proceed) s \<noteq> None"
  using assms aborting_enabled [OF assms(2,3), of Proceed s]
  by (auto simp: exec_def split: option.splits)

text \<open>
  C5. In every state a new handler can reach: the counter is the number of calls between
  their \<^verbatim>\<open>Add\<close> and their \<^verbatim>\<open>Done\<close>; the flag a call has read is the flag as it is while
  the call is still in the critical section, so reading it and incrementing the counter
  are one atomic action; a call that has read the flag as set can always move on, and
  whatever happens it stays on its way to the panic with \<^verbatim>\<open>http.ErrAbortHandler\<close>, which
  does not pass through the wrapped handler; and once a \<^verbatim>\<open>Stop\<close> has returned, the flag is
  set, the counter is zero, no call is inside the wrapped handler and none ever enters it
  again.
\<close>

theorem C5_abortable_handler:
  assumes "run as newAbortableHandler = Some s"
  shows "wg s = int (length (filter in_flight (threads s)))
    \<and> (\<forall>b. Serve (S_Add b) \<in> set (threads s) \<or> Serve (S_Unlock b) \<in> set (threads s)
          \<longrightarrow> b = stopped s)
    \<and> (\<forall>i < length (threads s). aborting (threads s ! i) \<longrightarrow>
          (threads s ! i \<noteq> Serve (S_End (Panics ErrAbortHandler))
             \<longrightarrow> exec (Step i Proceed) s \<noteq> None)
          \<and> (\<forall>bs s'. run bs s = Some s' \<longrightarrow> aborting (threads s' ! i)))
    \<and> (Stopper T_End \<in> set (threads s) \<longrightarrow>
          stopped s \<and> wg s = 0 \<and> Serve S_Handler \<notin> set (threads s)
          \<and> (\<forall>bs s'. run bs s = Some s' \<longrightarrow>
                invocations s' = invocations s \<and> Serve S_Handler \<notin> set (threads s')))"
proof -
  from gate_inv_run [OF gate_inv_newAbortableHandler assms] have inv: "gate_inv s" .
  then have 1: "wg s = int (length (filter in_flight (threads s)))"
    by (simp add: gate_inv_def cnt_def)
  from inv have ok: "\<forall>t \<in> set (threads s). local_ok s t"
    by (simp add: gate_inv_def list_all_iff)
  then have 2: "\<forall>b. Serve (S_Add b) \<in> set (threads s) \<or> Serve (S_Unlock b) \<in> set (threads s)
          \<longrightarrow> b = stopped s"
    by fastforce
  have 3: "\<forall>i < length (threads s). aborting (threads s ! i) \<longrightarrow>
          (threads s ! i \<noteq> Serve (S_End (Panics ErrAbortHandler))
             \<longrightarrow> exec (Step i Proceed) s \<noteq> None)
          \<and> (\<forall>bs s'. run bs s = Some s' \<longrightarrow> aborting (threads s' ! i))"
    using run_aborting exec_aborting_enabled by blast
  have 4: "stopped s \<and> wg s = 0 \<and> Serve S_Handler \<notin> set (threads s)
          \<and> (\<forall>bs s'. run bs s = Some s' \<longrightarrow>
                invocations s' = invocations s \<and> Serve S_Handler \<notin> set (threads s'))"
    if "Stopper T_End \<in> set (threads s)"
  proof -
    have "Stop_returned (Stopper T_End)" by simp
    with that have "list_ex Stop_returned (threads s)" unfolding list_ex_iff by blast
    with inv have "stopped s \<and> wg s = 0" by (simp add: gate_inv_def)
    moreover then have "quiet s" by (simp add: quiet_def)
    ultimately show ?thesis using quiet_forever [OF inv] by blast
  qed
  from 1 2 3 4 show ?thesis by blast
qed

theorem C5_abortable_handler_witness:
  "run [Call_ServeHTTP, Step 0 Proceed, Step 0 Proceed, Step 0 Proceed, Step 0 Proceed,
        Step 0 Proceed, Step 0 Proceed, Call_Stop, Step 1 Proceed, Step 1 Proceed, Step 1 Proceed,
        Call_ServeHTTP, Step 2 Proceed, Step 2 Proceed, Step 2 Proceed, Step 2 Proceed,
        Step 0 Proceed, Step 0 Proceed, Step 1 Proceed] newAbortableHandler
     = Some \<lparr>mu = False, wg = 0, stopped = True, serving = True, invocations = 1,
             threads = [Serve (S_End Returns), Stopper T_End, Serve (S_Check True)]\<rparr>
   \<and> run [Step 2 Proceed]
        \<lparr>mu = False, wg = 0, stopped = True, serving = True, invocations = 1,
         threads = [Serve (S_End Returns), Stopper T_End, Serve (S_Check True)]\<rparr>
     = Some \<lparr>mu = False, wg = 0, stopped = True, serving = True, invocations = 1,
             threads = [Serve (S_End Returns), Stopper T_End,
                        Serve (S_End (Panics ErrAbortHandler))]\<rparr>"
proof -
  define as where "as = [Call_ServeHTTP, Step 0 Proceed, Step 0 Proceed, Step 0 Proceed, Step 0 Proceed,
        Step 0 Proceed, Step 0 Proceed, Call_Stop, Step 1 Proceed, Step 1 Proceed, Step 1 Proceed,
        Call_ServeHTTP, Step 2 Proceed, Step 2 Proceed, Step 2 Proceed, Step 2 Proceed,
        Step 0 Proceed, Step 0 Proceed, Step 1 Proceed]"
  define s where "s = \<lparr>mu = False, wg = 0, stopped = True, serving = True, invocations = 1,
             threads = [Serve (S_End Returns), Stopper T_End, Serve (S_Check True)]\<rparr>"
  have r: "run as newAbortableHandler = Some s"
    by (simp add: as_def s_def run_defs newAbortableHandler_def)
  have mem: "Stopper T_End \<in> set (threads s)"
    and ab: "2 < length (threads s) \<and> aborting (threads s ! 2)"
    by (simp_all add: s_def)
  obtain s' where r': "run [Step 2 Proceed] s = Some s'"
    by (simp add: s_def run_defs)
  from C5_abortable_handler [OF r] mem ab r'
  have "invocations s' = invocations s \<and> aborting (threads s' ! 2)"
    by blast
  with r r' show ?thesis
    unfolding as_def s_def by (simp add: run_defs)
qed

subsection \<open>The handler after Run\<close>

text \<open>
  C1. When \<^verbatim>\<open>Run\<close> has returned, by either of its two returns, no call is inside the
  wrapped handler, and whatever the engines and other callers do afterwards, the wrapped
  handler is not entered again: the number of its invocations stays what it was.
\<close>

theorem C1_no_handler_after_Run:
  assumes "run as Server_Run = Some s" "Runner R_End \<in> set (threads s)"
  shows "Serve S_Handler \<notin> set (threads s)
    \<and> (\<forall>bs s'. run bs s = Some s' \<longrightarrow>
          invocations s' = invocations s \<and> Serve S_Handler \<notin> set (threads s'))"
proof -
  from gate_inv_run [OF gate_inv_Server_Run assms(1)] have inv: "gate_inv s" .
  then have "\<forall>t \<in> set (threads s). local_ok s t"
    by (simp add: gate_inv_def list_all_iff)
  with assms(2) have "local_ok s (Runner R_End)" by blast
  with assms(2) have "quiet s" by (auto simp: quiet_def)
  with inv show ?thesis by (rule quiet_forever)
qed

theorem C1_no_handler_after_Run_witness:
  "run [Step 0 Proceed, Call_ServeHTTP, Step 1 Proceed, Step 1 Proceed, Step 1 Proceed,
        Step 1 Proceed, Step 1 Proceed, Step 1 Proceed, Step 0 Proceed, Step 0 Proceed,
        Step 0 Proceed, Step 0 Proceed, Step 0 Proceed, Step 0 Proceed, Step 1 Proceed,
        Step 1 Proceed, Step 0 Proceed, Step 0 Proceed] Server_Run
     = Some \<lparr>mu = False, wg = 0, stopped = True, serving = True, invocations = 1,
             threads = [Runner R_End, Serve (S_End Returns)]\<rparr>
   \<and> run [Call_ServeHTTP, Step 2 Proceed, Step 2 Proceed, Step 2 Proceed, Step 2 Proceed,
           Step 2 Proceed]
        \<lparr>mu = False, wg = 0, stopped = True, serving = True, invocations = 1,
         threads = [Runner R_End, Serve (S_End Returns)]\<rparr>
     = Some \<lparr>mu = False, wg = 0, stopped = True, serving = True, invocations = 1,
             threads = [Runner R_End, Serve (S_End Returns),
                        Serve (S_End (Panics ErrAbortHandler))]\<rparr>"
proof -
  define as where "as = [Step 0 Proceed, Call_ServeHTTP, Step 1 Proceed, Step 1 Proceed,
        Step 1 Proceed, Step 1 Proceed, Step 1 Proceed, Step 1 Proceed, Step 0 Proceed,
        Step 0 Proceed, Step 0 Proceed, Step 0 Proceed, Step 0 Proceed, Step 0 Proceed,
        Step 1 Proceed, Step 1 Proceed, Step 0 Proceed, Step 0 Proceed]"
  define bs where "bs = [Call_ServeHTTP, Step 2 Proceed, Step 2 Proceed, Step 2 Proceed,
        Step 2 Proceed, Step 2 Proceed]"
  define s where "s = \<lparr>mu = False, wg = 0, stopped = True, serving = True, invocations = 1,
             threads = [Runner R_End, Serve (S_End Returns)]\<rparr>"
  have r: "run as Server_Run = Some s"
    by (simp add: as_def s_def run_defs Server_Run_def)
  have mem: "Runner R_End \<in> set (threads s)"
    by (simp add: s_def)
  obtain s' where r': "run bs s = Some s'"
    by (simp add: bs_def s_def run_defs)
  from C1_no_handler_after_Run [OF r mem] r'
  have "invocations s' = invocations s"
    by blast
  with r r' show ?thesis
    unfolding as_def bs_def s_def by (simp add: run_defs)
qed

end
